theory Spec2Isabelle
  imports Main "HOL-Library.AList"
begin

section \<open>JavaScript values\<close>

text \<open>
  The values the container handles. Objects and arrays carry the address at which they
  were allocated: two objects are identical (\<open>===\<close>) when their addresses agree, and
  deeply equal when they agree after the addresses are erased. \<open>JObj\<close> is a plain
  object (lodash's \<open>isPlainObject\<close>), with its own enumerable properties in insertion
  order. Numbers are integers. \<open>JFun f\<close> is a function written by the user of the
  container, known by its identifier \<open>f\<close> only. \<open>JUncloneable a\<close> is an object of a
  kind that lodash does not clone (an \<open>Error\<close>, a \<open>WeakMap\<close>), known by its address
  only.
\<close>

datatype jsval =
    JUndefined
  | JNull
  | JBool bool
  | JNum int
  | JStr string
  | JObj nat "(string \<times> jsval) list"
  | JArr nat "jsval list"
  | JFun nat
  | JUncloneable nat

text \<open>
  What a receiver or an argument of a factory can be: a value, the container itself
  (the default of both), or an instance of \<open>Definition\<close>, by its address.
\<close>

datatype arg = AVal jsval | AContainer | ADef nat

text \<open>
  What \<open>set\<close>, \<open>create\<close> and \<open>setRaw\<close> are given as the definition of a service:
  a value, or an instance of \<open>Definition\<close>.
\<close>

datatype spec = SVal jsval | SDef nat

datatype error =
    ServiceNotDefined string
  | RawNotDefinition
  | InvalidTag
  | LabelNotDefined string
  | NotCompiled
  | TypeError
  | RangeError
  | ValidationError
  | Thrown jsval

fun truthy :: "jsval \<Rightarrow> bool" where
  "truthy JUndefined = False"
| "truthy JNull = False"
| "truthy (JBool b) = b"
| "truthy (JNum n) = (n \<noteq> 0)"
| "truthy (JStr s) = (s \<noteq> [])"
| "truthy _ = True"

fun isString :: "jsval \<Rightarrow> bool" where
  "isString (JStr s) = True"
| "isString _ = False"

fun isPlainObject :: "jsval \<Rightarrow> bool" where
  "isPlainObject (JObj a fs) = True"
| "isPlainObject _ = False"

fun isFunction :: "jsval \<Rightarrow> bool" where
  "isFunction (JFun f) = True"
| "isFunction _ = False"

fun isArray :: "jsval \<Rightarrow> bool" where
  "isArray (JArr a vs) = True"
| "isArray _ = False"

text \<open>lodash's \<open>isObject\<close>: objects of every kind, arrays and functions.\<close>

fun isObject :: "jsval \<Rightarrow> bool" where
  "isObject (JObj a fs) = True"
| "isObject (JArr a vs) = True"
| "isObject (JFun f) = True"
| "isObject (JUncloneable a) = True"
| "isObject _ = False"

text \<open>\<open>_.has(v, key)\<close>: \<open>v\<close> has an own property \<open>key\<close> (whatever its value).\<close>

fun has :: "jsval \<Rightarrow> string \<Rightarrow> bool" where
  "has (JObj a fs) k = (k \<in> fst ` set fs)"
| "has _ k = False"

text \<open>Reading the property \<open>v.key\<close>; a missing property reads as \<open>undefined\<close>.\<close>

fun property :: "jsval \<Rightarrow> string \<Rightarrow> jsval" where
  "property (JObj a fs) k = (case map_of fs k of None \<Rightarrow> JUndefined | Some v \<Rightarrow> v)"
| "property _ k = JUndefined"

section \<open>Insertion-ordered maps\<close>

text \<open>
  A JavaScript \<open>Map\<close> iterates in insertion order, and \<open>set\<close> on a key that is there keeps
  the key's place: an association list with distinct keys.
\<close>

type_synonym ('k, 'v) jsmap = "('k \<times> 'v) list"

definition Map_has :: "('k, 'v) jsmap \<Rightarrow> 'k \<Rightarrow> bool" where
  "Map_has m k = (map_of m k \<noteq> None)"

definition Map_get :: "('k, 'v) jsmap \<Rightarrow> 'k \<Rightarrow> 'v option" where
  "Map_get m k = map_of m k"

definition Map_set :: "'k \<Rightarrow> 'v \<Rightarrow> ('k, 'v) jsmap \<Rightarrow> ('k, 'v) jsmap" where
  "Map_set k v m = AList.update k v m"

section \<open>Tags\<close>

text \<open>
  \<open>normalizeTag\<close>. The object literal \<open>{name: tag}\<close> is a new object: it takes the next
  free address \<open>n\<close>. The result is the normalised tag and the next free address.
\<close>

definition normalizeTag :: "jsval \<Rightarrow> nat \<Rightarrow> error + (jsval \<times> nat)" where
  "normalizeTag tag n =
     (if isString tag then Inr (JObj n [(''name'', tag)], Suc n)
      else if isPlainObject tag \<and> has tag ''name'' then Inr (tag, n)
      else Inl InvalidTag)"

text \<open>
  The tag store \<open>_tags\<close>: tag name to (service to the list of its tags), both maps in
  insertion order. The keys are whatever \<open>plainTag.name\<close> and \<open>service\<close> are.
\<close>

type_synonym tagstore = "(jsval, (jsval, jsval list) jsmap) jsmap"

text \<open>The body of the loop of \<open>tag\<close>, after normalisation.\<close>

definition tag_push :: "jsval \<Rightarrow> jsval \<Rightarrow> tagstore \<Rightarrow> tagstore" where
  "tag_push service plainTag ts =
     (let name = property plainTag ''name'';
          tagged = (if \<not> Map_has ts name then [] else the (Map_get ts name));
          tagsIn = (if \<not> Map_has tagged service then [] else the (Map_get tagged service))
      in Map_set name (Map_set service (tagsIn @ [plainTag]) tagged) ts)"

section \<open>Copies\<close>

text \<open>
  lodash's \<open>cloneDeep\<close> on these values: every plain object and array of the copy is
  new, and takes the next free address; primitive values are themselves. A value that
  lodash does not clone, a function or an object such as an \<open>Error\<close>, is kept when it is
  nested in an object or an array, and is copied as a new empty object when it is the
  value to clone. The result is the copy and the next free address.
\<close>

fun uncloneable :: "jsval \<Rightarrow> bool" where
  "uncloneable (JFun f) = True"
| "uncloneable (JUncloneable a) = True"
| "uncloneable v = False"

function cloneDeep :: "jsval \<Rightarrow> nat \<Rightarrow> jsval \<times> nat"
  and cloneDeep_props :: "(string \<times> jsval) list \<Rightarrow> nat \<Rightarrow> (string \<times> jsval) list \<times> nat"
  and cloneDeep_elems :: "jsval list \<Rightarrow> nat \<Rightarrow> jsval list \<times> nat"
where
  "cloneDeep (JObj a fs) n = (case cloneDeep_props fs (Suc n) of (fs', n') \<Rightarrow> (JObj n fs', n'))"
| "cloneDeep (JArr a vs) n = (case cloneDeep_elems vs (Suc n) of (vs', n') \<Rightarrow> (JArr n vs', n'))"
| "cloneDeep (JFun f) n = (JObj n [], Suc n)"
| "cloneDeep (JUncloneable a) n = (JObj n [], Suc n)"
| "cloneDeep JUndefined n = (JUndefined, n)"
| "cloneDeep JNull n = (JNull, n)"
| "cloneDeep (JBool b) n = (JBool b, n)"
| "cloneDeep (JNum i) n = (JNum i, n)"
| "cloneDeep (JStr s) n = (JStr s, n)"
| "cloneDeep_props [] n = ([], n)"
| "cloneDeep_props (kv # fs) n =
     (case (if uncloneable (snd kv) then (snd kv, n) else cloneDeep (snd kv) n) of (v', n') \<Rightarrow>
        (case cloneDeep_props fs n' of (fs', n'') \<Rightarrow> ((fst kv, v') # fs', n'')))"
| "cloneDeep_elems [] n = ([], n)"
| "cloneDeep_elems (v # vs) n =
     (case (if uncloneable v then (v, n) else cloneDeep v n) of (v', n') \<Rightarrow>
        (case cloneDeep_elems vs n' of (vs', n'') \<Rightarrow> (v' # vs', n'')))"
  by pat_completeness auto
termination
  by (relation "measure (\<lambda>x. case x of
        Inl (v, n) \<Rightarrow> size v
      | Inr (Inl (fs, n)) \<Rightarrow> size_list (size_prod (\<lambda>_. 0) size) fs
      | Inr (Inr (vs, n)) \<Rightarrow> size_list size vs)") auto

text \<open>lodash's \<open>clone\<close>: only the top object is new.\<close>

fun clone :: "jsval \<Rightarrow> nat \<Rightarrow> jsval \<times> nat" where
  "clone (JObj a fs) n = (JObj n fs, Suc n)"
| "clone (JArr a vs) n = (JArr n vs, Suc n)"
| "clone (JFun f) n = (JObj n [], Suc n)"
| "clone (JUncloneable a) n = (JObj n [], Suc n)"
| "clone v n = (v, n)"

text \<open>Identity and deep equality of values.\<close>

fun address :: "jsval \<Rightarrow> nat option" where
  "address (JObj a fs) = Some a"
| "address (JArr a vs) = Some a"
| "address (JUncloneable a) = Some a"
| "address _ = None"

definition identical :: "jsval \<Rightarrow> jsval \<Rightarrow> bool" where
  "identical v w = (case address v of None \<Rightarrow> v = w | Some a \<Rightarrow> address w = Some a)"

fun erase :: "jsval \<Rightarrow> jsval" where
  "erase (JObj a fs) = JObj 0 (map (\<lambda>kv. (fst kv, erase (snd kv))) fs)"
| "erase (JArr a vs) = JArr 0 (map erase vs)"
| "erase v = v"

definition deep_equal :: "jsval \<Rightarrow> jsval \<Rightarrow> bool" where
  "deep_equal v w = (erase v = erase w)"

text \<open>The addresses that occur in a value.\<close>

fun addresses :: "jsval \<Rightarrow> nat set" where
  "addresses (JObj a fs) = insert a (\<Union>kv \<in> set fs. addresses (snd kv))"
| "addresses (JArr a vs) = insert a (\<Union>v \<in> set vs. addresses v)"
| "addresses (JUncloneable a) = {a}"
| "addresses v = {}"

section \<open>Definitions and the container\<close>

text \<open>
  The function \<open>resolve\<close> that \<open>compile\<close> installs is a closure. \<open>Resolver d i k\<close> is the
  closure built by \<open>wrap\<close> for the Definition at address \<open>d\<close> around the inner resolver
  \<open>i\<close> of \<open>createResolver\<close>; \<open>k\<close> is the cell of \<open>_.once\<close> when the Definition was
  shared at that moment. The inner resolver is the factory bound to its receiver and its
  resolved arguments (a function of the user, or the resolver of the Definition that
  \<open>configure\<close> unwrapped), the closure over a non-function object, or \<open>_.constant\<close>.
\<close>

datatype resolver = Resolver nat inner "nat option"
and inner =
    BoundUser nat arg "arg list"
  | BoundResolver resolver arg "arg list"
  | ObjectThunk jsval
  | Constant jsval

datatype rawspec = RawVal jsval | RawResolver resolver

record Definition =
  d_shared :: bool
  d_labels :: "string list"
  d_context :: arg
  d_args :: "arg list"
  d_raw :: rawspec
  d_ID :: "string option"
  d_resolve :: "resolver option"

text \<open>The cell of \<open>_.once\<close> (\<open>_.before(2, func)\<close>): not called yet, or called, with its \<open>result\<close>.\<close>

datatype once = Fresh | Called_once jsval

text \<open>
  What is observed of a run: a call of the \<open>resolve\<close> of the Definition at an address,
  a run of the function that \<open>wrap\<close> wraps (the inner resolver, then the labels), the
  callback of a label applied for a Definition, and every call of a function of the user,
  with its receiver and arguments.
\<close>

datatype event =
    Invoked nat
  | Ran nat
  | Labelled nat string
  | Called nat arg "arg list"

text \<open>
  The container, and the objects it works on: the Definitions by address, the cells of
  \<open>_.once\<close>, the next free addresses, and the events so far. \<open>accessors\<close> are the names
  of the properties that \<open>setRaw\<close> defines on the container itself; reading one calls
  \<open>get\<close> on that name. Such a property hides the method of the class that has its name.
\<close>

record pimple =
  deepClone :: bool
  definitions :: "string \<rightharpoonup> spec"
  labels :: "string \<rightharpoonup> jsval"
  tags :: tagstore
  reserved :: "string list"
  accessors :: "string list"
  heap :: "nat \<Rightarrow> Definition"
  next_def :: nat
  cells :: "nat \<Rightarrow> once"
  next_cell :: nat
  next_addr :: nat
  trace :: "event list"

text \<open>
  The functions of the user are not part of the program. \<open>call E f this args h\<close> is what
  the function \<open>f\<close> returns or throws when called on that receiver and those arguments
  after the events \<open>h\<close>; \<open>touch E f this args h v\<close> is the state in which the call leaves
  the object \<open>v\<close> that it was passed. A function of the user does not call the container.
\<close>

record env =
  call :: "nat \<Rightarrow> arg \<Rightarrow> arg list \<Rightarrow> event list \<Rightarrow> error + jsval"
  touch :: "nat \<Rightarrow> arg \<Rightarrow> arg list \<Rightarrow> event list \<Rightarrow> jsval \<Rightarrow> jsval"

definition log :: "event list \<Rightarrow> pimple \<Rightarrow> pimple" where
  "log es c = c\<lparr>trace := trace c @ es\<rparr>"

text \<open>An object keeps its address when a callback changes it; other values do not change.\<close>

fun mutated :: "jsval \<Rightarrow> jsval \<Rightarrow> jsval" where
  "mutated (JObj a fs) (JObj b gs) = JObj a gs"
| "mutated (JArr a vs) (JArr b ws) = JArr a ws"
| "mutated v w = v"

section \<open>Labels and resolution\<close>

definition defineLabel :: "string \<Rightarrow> jsval \<Rightarrow> pimple \<Rightarrow> pimple" where
  "defineLabel l callback c = c\<lparr>labels := (labels c)(l \<mapsto> callback)\<rparr>"

definition getLabel :: "pimple \<Rightarrow> string \<Rightarrow> error + jsval" where
  "getLabel c l = (case labels c l of None \<Rightarrow> Inl (LabelNotDefined l) | Some callback \<Rightarrow> Inr callback)"

text \<open>\<open>this.ID\<close> of the Definition at \<open>d\<close>, as a value.\<close>

definition ID_value :: "pimple \<Rightarrow> nat \<Rightarrow> jsval" where
  "ID_value c d = (case d_ID (heap c d) of None \<Rightarrow> JUndefined | Some s \<Rightarrow> JStr s)"

text \<open>
  The loop of \<open>wrap\<close> over the labels of the Definition at \<open>d\<close>: the callback of each label
  is looked up when its turn comes and applied to the instance, the container and the
  identifier, with the Definition as receiver.
\<close>

fun apply_labels :: "env \<Rightarrow> nat \<Rightarrow> string list \<Rightarrow> jsval \<Rightarrow> pimple \<Rightarrow> pimple \<times> (error + jsval)" where
  "apply_labels E d [] inst c = (c, Inr inst)"
| "apply_labels E d (l # ls) inst c =
     (case getLabel c l of
        Inl e \<Rightarrow> (c, Inl e)
      | Inr callback \<Rightarrow>
          (case callback of
             JFun f \<Rightarrow>
               (let as = [AVal inst, AContainer, AVal (ID_value c d)];
                    c' = log [Labelled d l, Called f (ADef d) as] c
                in case call E f (ADef d) as (trace c) of
                     Inl e \<Rightarrow> (c', Inl e)
                   | Inr r \<Rightarrow> apply_labels E d ls (mutated inst (touch E f (ADef d) as (trace c) inst)) c')
           | _ \<Rightarrow> (c, Inl TypeError)))"

text \<open>The function that \<open>wrap\<close> builds, after the inner resolver has returned.\<close>

definition wrapped :: "env \<Rightarrow> nat \<Rightarrow> pimple \<times> (error + jsval) \<Rightarrow> pimple \<times> (error + jsval)" where
  "wrapped E d r =
     (case r of
        (c, Inl e) \<Rightarrow> (c, Inl e)
      | (c, Inr inst) \<Rightarrow> apply_labels E d (d_labels (heap c d)) inst c)"

text \<open>\<open>_.once\<close>, after the wrapped function has returned: its result is kept.\<close>

definition remember :: "nat \<Rightarrow> pimple \<times> (error + jsval) \<Rightarrow> pimple \<times> (error + jsval)" where
  "remember k r =
     (case r of
        (c, Inl e) \<Rightarrow> (c, Inl e)
      | (c, Inr v) \<Rightarrow> (c\<lparr>cells := (cells c)(k := Called_once v)\<rparr>, Inr v))"

text \<open>
  A call of a compiled \<open>resolve\<close>. Under \<open>_.once\<close> the counter is decremented before the
  wrapped function is called, so the cell is marked as called first, with the result
  \<open>undefined\<close> until the function returns. The closure over an object reads \<open>_shared\<close>
  and \<open>_deepClone\<close> when it is called.
\<close>

fun invoke :: "env \<Rightarrow> resolver \<Rightarrow> pimple \<Rightarrow> pimple \<times> (error + jsval)"
  and run_inner :: "env \<Rightarrow> nat \<Rightarrow> inner \<Rightarrow> pimple \<Rightarrow> pimple \<times> (error + jsval)"
where
  "invoke E (Resolver d i k) c =
     (case k of
        None \<Rightarrow> wrapped E d (run_inner E d i (log [Invoked d, Ran d] c))
      | Some k' \<Rightarrow>
          (case cells c k' of
             Called_once v \<Rightarrow> (log [Invoked d] c, Inr v)
           | Fresh \<Rightarrow>
               remember k' (wrapped E d (run_inner E d i
                 (log [Invoked d, Ran d] (c\<lparr>cells := (cells c)(k' := Called_once JUndefined)\<rparr>))))))"
| "run_inner E d (BoundUser f ctx as) c = (log [Called f ctx as] c, call E f ctx as (trace c))"
| "run_inner E d (BoundResolver r ctx as) c = invoke E r c"
| "run_inner E d (ObjectThunk v) c =
     (if d_shared (heap c d) then (c, Inr v)
      else if deepClone c then
        (case cloneDeep v (next_addr c) of (v', n) \<Rightarrow> (c\<lparr>next_addr := n\<rparr>, Inr v'))
      else
        (case clone v (next_addr c) of (v', n) \<Rightarrow> (c\<lparr>next_addr := n\<rparr>, Inr v')))"
| "run_inner E d (Constant v) c = (c, Inr v)"

section \<open>The class Definition\<close>

definition update_def :: "nat \<Rightarrow> (Definition \<Rightarrow> Definition) \<Rightarrow> pimple \<Rightarrow> pimple" where
  "update_def d f c = c\<lparr>heap := (heap c)(d := f (heap c d))\<rparr>"

text \<open>\<open>Set.add\<close> on a set in insertion order.\<close>

definition Set_add :: "'a \<Rightarrow> 'a list \<Rightarrow> 'a list" where
  "Set_add x xs = (if x \<in> set xs then xs else xs @ [x])"

definition configure :: "spec \<Rightarrow> Definition \<Rightarrow> pimple \<Rightarrow> Definition" where
  "configure definition self c =
     (case definition of
        SDef d' \<Rightarrow>
          self\<lparr>d_context := d_context (heap c d'),
               d_args := d_args (heap c d'),
               d_raw := (case d_resolve (heap c d') of
                           None \<Rightarrow> RawVal JUndefined
                         | Some r \<Rightarrow> RawResolver r)\<rparr>
      | SVal v \<Rightarrow> self\<lparr>d_raw := RawVal v\<rparr>)"

text \<open>The constructor: the new Definition takes the next free address of Definitions.\<close>

definition new_Definition :: "spec \<Rightarrow> arg \<Rightarrow> arg list \<Rightarrow> pimple \<Rightarrow> pimple \<times> nat" where
  "new_Definition definition ctx as c =
     (let self = \<lparr>d_shared = False, d_labels = [], d_context = ctx, d_args = as,
                  d_raw = RawVal JUndefined, d_ID = None, d_resolve = None\<rparr>;
          d = next_def c
      in (c\<lparr>heap := (heap c)(d := configure definition self c), next_def := Suc d\<rparr>, d))"

definition label :: "nat \<Rightarrow> string \<Rightarrow> jsval \<Rightarrow> pimple \<Rightarrow> pimple" where
  "label d name labelToDefine c =
     (let c' = update_def d (\<lambda>x. x\<lparr>d_labels := Set_add name (d_labels x)\<rparr>) c
      in if isFunction labelToDefine then defineLabel name labelToDefine c' else c')"

text \<open>The getter \<open>id\<close>: it throws while \<open>ID\<close> is not set, or is the empty string.\<close>

definition id_of :: "nat \<Rightarrow> pimple \<Rightarrow> error + string" where
  "id_of d c = (if \<not> truthy (ID_value c d) then Inl NotCompiled else Inr (the (d_ID (heap c d))))"

text \<open>One element of \<open>arguments\<close>: an argument that is a Definition is resolved now.\<close>

definition resolve_arg :: "env \<Rightarrow> arg \<Rightarrow> pimple \<Rightarrow> pimple \<times> (error + arg)" where
  "resolve_arg E a c =
     (case a of
        ADef d \<Rightarrow>
          (case d_resolve (heap c d) of
             None \<Rightarrow> (c, Inl TypeError)
           | Some r \<Rightarrow>
               (case invoke E r c of
                  (c', Inl e) \<Rightarrow> (c', Inl e)
                | (c', Inr v) \<Rightarrow> (c', Inr (AVal v))))
      | _ \<Rightarrow> (c, Inr a))"

fun arguments :: "env \<Rightarrow> arg list \<Rightarrow> pimple \<Rightarrow> pimple \<times> (error + arg list)" where
  "arguments E [] c = (c, Inr [])"
| "arguments E (a # as) c =
     (case resolve_arg E a c of
        (c', Inl e) \<Rightarrow> (c', Inl e)
      | (c', Inr v) \<Rightarrow>
          (case arguments E as c' of
             (c'', Inl e) \<Rightarrow> (c'', Inl e)
           | (c'', Inr vs) \<Rightarrow> (c'', Inr (v # vs))))"

definition bind_args :: "env \<Rightarrow> nat \<Rightarrow> (arg \<Rightarrow> arg list \<Rightarrow> inner) \<Rightarrow> pimple \<Rightarrow> pimple \<times> (error + inner)" where
  "bind_args E d bound c =
     (case arguments E (d_args (heap c d)) c of
        (c', Inl e) \<Rightarrow> (c', Inl e)
      | (c', Inr as) \<Rightarrow> (c', Inr (bound (d_context (heap c d)) as)))"

definition createResolver :: "env \<Rightarrow> nat \<Rightarrow> rawspec \<Rightarrow> pimple \<Rightarrow> pimple \<times> (error + inner)" where
  "createResolver E d definition c =
     (case definition of
        RawResolver r \<Rightarrow> bind_args E d (BoundResolver r) c
      | RawVal (JFun f) \<Rightarrow> bind_args E d (BoundUser f) c
      | RawVal v \<Rightarrow> if isObject v then (c, Inr (ObjectThunk v)) else (c, Inr (Constant v)))"

definition wrap :: "nat \<Rightarrow> inner \<Rightarrow> pimple \<Rightarrow> pimple \<times> resolver" where
  "wrap d i c =
     (if d_shared (heap c d)
      then (c\<lparr>cells := (cells c)(next_cell c := Fresh), next_cell := Suc (next_cell c)\<rparr>,
            Resolver d i (Some (next_cell c)))
      else (c, Resolver d i None))"

definition compile :: "env \<Rightarrow> nat \<Rightarrow> string \<Rightarrow> pimple \<Rightarrow> pimple \<times> (error + unit)" where
  "compile E d serviceId c =
     (let c1 = update_def d (\<lambda>x. x\<lparr>d_ID := Some serviceId\<rparr>) c
      in case createResolver E d (d_raw (heap c1 d)) c1 of
           (c2, Inl e) \<Rightarrow> (c2, Inl e)
         | (c2, Inr i) \<Rightarrow>
             (case wrap d i c2 of
                (c3, r) \<Rightarrow> (update_def d (\<lambda>x. x\<lparr>d_resolve := Some r\<rparr>) c3, Inr ())))"

section \<open>The class Pimple\<close>

text \<open>
  A method called on a value that is not a Definition: the property is read and, when it
  is a function of the user, called with the value as receiver.
\<close>

definition call_method :: "env \<Rightarrow> jsval \<Rightarrow> string \<Rightarrow> arg list \<Rightarrow> pimple \<Rightarrow> pimple \<times> (error + jsval)" where
  "call_method E v m as c =
     (case property v m of
        JFun f \<Rightarrow> (log [Called f (AVal v) as] c, call E f (AVal v) as (trace c))
      | _ \<Rightarrow> (c, Inl TypeError))"

fun truthy_spec :: "spec \<Rightarrow> bool" where
  "truthy_spec (SVal v) = truthy v"
| "truthy_spec (SDef d) = True"

fun truthy_arg :: "arg \<Rightarrow> bool" where
  "truthy_arg (AVal v) = truthy v"
| "truthy_arg _ = True"

fun spec_arg :: "spec \<Rightarrow> arg" where
  "spec_arg (SVal v) = AVal v"
| "spec_arg (SDef d) = ADef d"

text \<open>The operators \<open>!\<close> and \<open>instanceof Definition\<close>.\<close>

definition js_not :: "spec \<Rightarrow> spec" where
  "js_not x = SVal (JBool (\<not> truthy_spec x))"

fun instanceof_Definition :: "spec \<Rightarrow> bool" where
  "instanceof_Definition (SDef d) = True"
| "instanceof_Definition (SVal v) = False"

definition isReserved :: "pimple \<Rightarrow> string \<Rightarrow> bool" where
  "isReserved c serviceId = (serviceId \<in> set (reserved c))"

text \<open>
  The names of the methods of the class are not reserved. Once a service has been
  registered under the name \<open>m\<close> of a method, \<open>this.m\<close> reads the property that \<open>setRaw\<close>
  defined and not the method. The calls of \<open>get\<close>, \<open>getDefinition\<close>, \<open>getResolver\<close> and
  \<open>addLabel\<close> are described with this, each as the body of the method and as the call.
  The other methods are described by their bodies, as they run in a container in which
  neither their names nor those of the methods they call are hidden.
\<close>

definition hidden :: "pimple \<Rightarrow> string \<Rightarrow> bool" where
  "hidden c m = (m \<in> set (accessors c))"

text \<open>The body of the method \<open>getDefinition\<close>.\<close>

definition getDefinition :: "string \<Rightarrow> pimple \<Rightarrow> error + spec" where
  "getDefinition serviceId c =
     (case definitions c serviceId of
        None \<Rightarrow> Inl (ServiceNotDefined serviceId)
      | Some definition \<Rightarrow>
          if \<not> truthy_spec definition then Inl (ServiceNotDefined serviceId) else Inr definition)"

text \<open>
  The call \<open>this.getDefinition(serviceId)\<close>. When \<open>getDefinition\<close> is hidden, reading it
  calls \<open>get\<close> (the method, or the property that hides it, which calls \<open>get\<close> again),
  and the method \<open>get\<close> reads \<open>this.getDefinition\<close> in turn: the calls nest until the
  stack is exhausted, and nothing has been changed by then.
\<close>

definition call_getDefinition :: "string \<Rightarrow> pimple \<Rightarrow> error + spec" where
  "call_getDefinition serviceId c =
     (if hidden c ''getDefinition'' then Inl RangeError else getDefinition serviceId c)"

text \<open>The body of the method \<open>get\<close>.\<close>

definition get :: "env \<Rightarrow> string \<Rightarrow> pimple \<Rightarrow> pimple \<times> (error + jsval)" where
  "get E serviceId c =
     (case call_getDefinition serviceId c of
        Inl e \<Rightarrow> (c, Inl e)
      | Inr (SDef d) \<Rightarrow>
          (case d_resolve (heap c d) of
             None \<Rightarrow> (c, Inl TypeError)
           | Some r \<Rightarrow> invoke E r c)
      | Inr (SVal v) \<Rightarrow> call_method E v ''resolve'' [] c)"

text \<open>
  The call \<open>this.get(serviceId)\<close>. When \<open>get\<close> is hidden, reading it calls
  \<open>this.get(''get'')\<close>, which reads it again: the stack is exhausted.
\<close>

definition call_get :: "env \<Rightarrow> string \<Rightarrow> pimple \<Rightarrow> pimple \<times> (error + jsval)" where
  "call_get E serviceId c = (if hidden c ''get'' then (c, Inl RangeError) else get E serviceId c)"

text \<open>
  A call \<open>this.m(args)\<close> of a hidden method \<open>m\<close>: the property is read, which is
  \<open>this.get(m)\<close>, and the value of the service \<open>m\<close> is called on the arguments with the
  container as receiver; a value that is not a function cannot be called.
\<close>

definition call_value :: "env \<Rightarrow> jsval \<Rightarrow> arg list \<Rightarrow> pimple \<Rightarrow> pimple \<times> (error + jsval)" where
  "call_value E v as c =
     (case v of
        JFun f \<Rightarrow> (log [Called f AContainer as] c, call E f AContainer as (trace c))
      | _ \<Rightarrow> (c, Inl TypeError))"

definition call_hidden :: "env \<Rightarrow> string \<Rightarrow> arg list \<Rightarrow> pimple \<Rightarrow> pimple \<times> (error + jsval)" where
  "call_hidden E m as c =
     (case call_get E m c of
        (c', Inl e) \<Rightarrow> (c', Inl e)
      | (c', Inr v) \<Rightarrow> call_value E v as c')"

text \<open>The body of the method \<open>getResolver\<close>, and the call \<open>this.getResolver(serviceId)\<close>.\<close>

definition getResolver :: "string \<Rightarrow> pimple \<Rightarrow> error + rawspec" where
  "getResolver serviceId c =
     (case call_getDefinition serviceId c of
        Inl e \<Rightarrow> Inl e
      | Inr (SDef d) \<Rightarrow>
          (case d_resolve (heap c d) of
             None \<Rightarrow> Inr (RawVal JUndefined)
           | Some r \<Rightarrow> Inr (RawResolver r))
      | Inr (SVal v) \<Rightarrow> Inr (RawVal (property v ''resolve'')))"

definition call_getResolver :: "env \<Rightarrow> string \<Rightarrow> pimple \<Rightarrow> pimple \<times> (error + rawspec)" where
  "call_getResolver E serviceId c =
     (if hidden c ''getResolver''
      then (case call_hidden E ''getResolver'' [AVal (JStr serviceId)] c of
              (c', Inl e) \<Rightarrow> (c', Inl e)
            | (c', Inr v) \<Rightarrow> (c', Inr (RawVal v)))
      else (c, getResolver serviceId c))"

definition create :: "spec \<Rightarrow> arg \<Rightarrow> arg \<Rightarrow> pimple \<Rightarrow> pimple \<times> nat" where
  "create definition ctx argument c =
     new_Definition definition
       (if truthy_arg ctx then ctx else AContainer)
       [if truthy_arg argument then argument else AContainer] c"

fun tag_loop :: "jsval \<Rightarrow> jsval list \<Rightarrow> pimple \<Rightarrow> pimple \<times> (error + unit)" where
  "tag_loop service [] c = (c, Inr ())"
| "tag_loop service (t # ts) c =
     (case normalizeTag t (next_addr c) of
        Inl e \<Rightarrow> (c, Inl e)
      | Inr (plainTag, n) \<Rightarrow>
          tag_loop service ts (c\<lparr>tags := tag_push service plainTag (tags c), next_addr := n\<rparr>))"

definition tag :: "jsval \<Rightarrow> jsval list \<Rightarrow> pimple \<Rightarrow> pimple \<times> (error + unit)" where
  "tag service ts c = tag_loop service ts c"

definition getTag :: "jsval \<Rightarrow> pimple \<Rightarrow> (jsval, jsval list) jsmap" where
  "getTag tagName c = (if Map_has (tags c) tagName then the (Map_get (tags c) tagName) else [])"

text \<open>\<open>Definition.tags\<close>, the method that tags the service of a Definition.\<close>

definition tags_of_definition :: "nat \<Rightarrow> jsval list \<Rightarrow> pimple \<Rightarrow> pimple \<times> (error + unit)" where
  "tags_of_definition d ts c = tag (ID_value c d) ts c"

text \<open>
  The configurators of \<open>set\<close>: the two that the module exports, \<open>label(name, callback)\<close>
  and \<open>tag(...tags)\<close>, and functions of the user.
\<close>

datatype configurator =
    Label_configurator string jsval
  | Tag_configurator "jsval list"
  | User_configurator nat

definition configurator_call :: "env \<Rightarrow> configurator \<Rightarrow> spec \<Rightarrow> pimple \<Rightarrow> pimple \<times> (error + unit)" where
  "configurator_call E cf def c =
     (case cf of
        Label_configurator name callback \<Rightarrow>
          (case def of
             SDef d \<Rightarrow> (label d name callback c, Inr ())
           | SVal v \<Rightarrow>
               (case call_method E v ''label'' [AVal (JStr name), AVal callback] c of
                  (c', Inl e) \<Rightarrow> (c', Inl e)
                | (c', Inr r) \<Rightarrow> (c', Inr ())))
      | Tag_configurator ts \<Rightarrow>
          (case def of
             SDef d \<Rightarrow> tags_of_definition d ts c
           | SVal v \<Rightarrow>
               (case call_method E v ''tags'' (map AVal ts) c of
                  (c', Inl e) \<Rightarrow> (c', Inl e)
                | (c', Inr r) \<Rightarrow> (c', Inr ())))
      | User_configurator f \<Rightarrow>
          (case call E f (AVal JUndefined) [spec_arg def, AContainer] (trace c) of
             Inl e \<Rightarrow> (log [Called f (AVal JUndefined) [spec_arg def, AContainer]] c, Inl e)
           | Inr r \<Rightarrow> (log [Called f (AVal JUndefined) [spec_arg def, AContainer]] c, Inr ())))"

fun over :: "env \<Rightarrow> configurator list \<Rightarrow> spec \<Rightarrow> pimple \<Rightarrow> pimple \<times> (error + unit)" where
  "over E [] def c = (c, Inr ())"
| "over E (cf # cfs) def c =
     (case configurator_call E cf def c of
        (c', Inl e) \<Rightarrow> (c', Inl e)
      | (c', Inr u) \<Rightarrow> over E cfs def c')"

text \<open>\<open>definition.compile(serviceId)\<close> in \<open>setRaw\<close>, on whatever \<open>definition\<close> is.\<close>

definition compile_call :: "env \<Rightarrow> spec \<Rightarrow> string \<Rightarrow> pimple \<Rightarrow> pimple \<times> (error + unit)" where
  "compile_call E definition serviceId c =
     (case definition of
        SDef d \<Rightarrow> compile E d serviceId c
      | SVal v \<Rightarrow>
          (case call_method E v ''compile'' [AVal (JStr serviceId)] c of
             (c', Inl e) \<Rightarrow> (c', Inl e)
           | (c', Inr r) \<Rightarrow> (c', Inr ())))"

definition setRaw :: "env \<Rightarrow> string \<Rightarrow> spec \<Rightarrow> configurator list \<Rightarrow> pimple \<Rightarrow> pimple \<times> (error + unit)" where
  "setRaw E serviceId definition configurators c =
     (if instanceof_Definition (js_not definition) then (c, Inl RawNotDefinition)
      else case compile_call E definition serviceId c of
             (c1, Inl e) \<Rightarrow> (c1, Inl e)
           | (c1, Inr u) \<Rightarrow>
               (let c2 = c1\<lparr>definitions := (definitions c1)(serviceId \<mapsto> definition)\<rparr>;
                    c3 = (if \<not> isReserved c2 serviceId
                          then c2\<lparr>accessors := Set_add serviceId (accessors c2)\<rparr>
                          else c2)
                in if configurators \<noteq> [] then over E configurators definition c3
                   else (c3, Inr ())))"

definition set_service :: "env \<Rightarrow> string \<Rightarrow> spec \<Rightarrow> configurator list \<Rightarrow> pimple \<Rightarrow> pimple \<times> (error + unit)" where
  "set_service E serviceId definition configurators c =
     (case create definition (AVal JUndefined) (AVal JUndefined) c of
        (c', d) \<Rightarrow> setRaw E serviceId (SDef d) configurators c')"

definition setShared :: "env \<Rightarrow> string \<Rightarrow> spec \<Rightarrow> configurator list \<Rightarrow> pimple \<Rightarrow> pimple \<times> (error + unit)" where
  "setShared E serviceId definition configures c =
     (case create definition (AVal JUndefined) (AVal JUndefined) c of
        (c', def) \<Rightarrow>
          setRaw E serviceId (SDef def) configures (update_def def (\<lambda>x. x\<lparr>d_shared := True\<rparr>) c'))"

text \<open>
  The body of the method \<open>addLabel\<close>, and the call \<open>this.addLabel(serviceId, ...labels)\<close>.
  \<open>_.forEach\<close> stops when its callback returns \<open>false\<close>, which the method \<open>label\<close> of a
  Definition never does.
\<close>

fun addLabel_loop :: "env \<Rightarrow> spec \<Rightarrow> string list \<Rightarrow> pimple \<Rightarrow> pimple \<times> (error + unit)" where
  "addLabel_loop E rawDef [] c = (c, Inr ())"
| "addLabel_loop E rawDef (l # ls) c =
     (case rawDef of
        SDef d \<Rightarrow> addLabel_loop E rawDef ls (label d l JUndefined c)
      | SVal v \<Rightarrow>
          (case call_method E v ''label'' [AVal (JStr l)] c of
             (c', Inl e) \<Rightarrow> (c', Inl e)
           | (c', Inr r) \<Rightarrow> if r = JBool False then (c', Inr ()) else addLabel_loop E rawDef ls c'))"

definition addLabel :: "env \<Rightarrow> string \<Rightarrow> string list \<Rightarrow> pimple \<Rightarrow> pimple \<times> (error + unit)" where
  "addLabel E serviceId ls c =
     (case call_getDefinition serviceId c of
        Inl e \<Rightarrow> (c, Inl e)
      | Inr rawDef \<Rightarrow> addLabel_loop E rawDef ls c)"

definition call_addLabel :: "env \<Rightarrow> string \<Rightarrow> string list \<Rightarrow> pimple \<Rightarrow> pimple \<times> (error + unit)" where
  "call_addLabel E serviceId ls c =
     (if hidden c ''addLabel''
      then (case call_hidden E ''addLabel'' (AVal (JStr serviceId) # map (\<lambda>l. AVal (JStr l)) ls) c of
              (c', Inl e) \<Rightarrow> (c', Inl e)
            | (c', Inr v) \<Rightarrow> (c', Inr ()))
      else addLabel E serviceId ls c)"

text \<open>
  The constructor. \<open>_reserved\<close> is \<open>_.keysIn(this)\<close> once the five fields are assigned;
  the initial definitions are registered with \<open>set\<close>, in their order. \<open>n\<close> is the next
  free address when the constructor is called.
\<close>

definition blank :: Definition where
  "blank = \<lparr>d_shared = False, d_labels = [], d_context = AVal JUndefined, d_args = [],
            d_raw = RawVal JUndefined, d_ID = None, d_resolve = None\<rparr>"

definition empty_pimple :: "bool \<Rightarrow> nat \<Rightarrow> pimple" where
  "empty_pimple deep n =
     \<lparr>deepClone = deep, definitions = Map.empty, labels = Map.empty, tags = [],
      reserved = [''_deepClone'', ''_definitions'', ''_labels'', ''_tags'', ''_reserved''],
      accessors = [], heap = (\<lambda>d. blank), next_def = 0, cells = (\<lambda>k. Fresh), next_cell = 0,
      next_addr = n, trace = []\<rparr>"

fun forOwn_set :: "env \<Rightarrow> (string \<times> spec) list \<Rightarrow> pimple \<Rightarrow> pimple \<times> (error + unit)" where
  "forOwn_set E [] c = (c, Inr ())"
| "forOwn_set E (kv # kvs) c =
     (case set_service E (fst kv) (snd kv) [] c of
        (c', Inl e) \<Rightarrow> (c', Inl e)
      | (c', Inr u) \<Rightarrow> forOwn_set E kvs c')"

definition new_Pimple :: "env \<Rightarrow> (string \<times> spec) list \<Rightarrow> bool \<Rightarrow> nat \<Rightarrow> pimple \<times> (error + unit)" where
  "new_Pimple E defs deep n = forOwn_set E defs (empty_pimple deep n)"

section \<open>Iteration over the tagged services\<close>

text \<open>
  The sort field is read with lodash's \<open>_.get(object, path, default)\<close>, which is not part
  of the program: it is the parameter \<open>G\<close> of what follows, a function from the object,
  the path and the default to the value read.
\<close>

type_synonym lodash_get = "jsval \<Rightarrow> string \<Rightarrow> jsval \<Rightarrow> jsval"

text \<open>
  The operator \<open><\<close> on two numbers. On other operands it is taken as false here, as it
  is in JavaScript when an operand converts to \<open>NaN\<close>; the properties below are about
  tags whose sort field is a number or is missing.
\<close>

fun js_less :: "jsval \<Rightarrow> jsval \<Rightarrow> bool" where
  "js_less (JNum a) (JNum b) = (a < b)"
| "js_less v w = False"

text \<open>The comparison function that \<open>overTags\<close> passes to \<open>sort\<close>.\<close>

definition compare_tags :: "lodash_get \<Rightarrow> string \<Rightarrow> int \<Rightarrow> jsval \<times> jsval \<Rightarrow> jsval \<times> jsval \<Rightarrow> int" where
  "compare_tags G field ord a b =
     (let v1 = G (snd a) field (JNum 0);
          v2 = G (snd b) field (JNum 0)
      in if js_less v1 v2 then - 1 * ord
         else if js_less v2 v1 then 1 * ord else 0)"

text \<open>
  \<open>Array.prototype.sort\<close> with a comparison function is a stable sort: an element goes
  after another one only when the function says so with a positive number, and elements
  that compare as equal keep their order.
\<close>

fun sort_insert :: "('a \<Rightarrow> 'a \<Rightarrow> int) \<Rightarrow> 'a \<Rightarrow> 'a list \<Rightarrow> 'a list" where
  "sort_insert cmp x [] = [x]"
| "sort_insert cmp x (y # ys) = (if cmp x y \<le> 0 then x # y # ys else y # sort_insert cmp x ys)"

definition Array_sort :: "('a \<Rightarrow> 'a \<Rightarrow> int) \<Rightarrow> 'a list \<Rightarrow> 'a list" where
  "Array_sort cmp xs = foldr (sort_insert cmp) xs []"

text \<open>The pairs of a tag, service by service, each with its tags in their order.\<close>

definition pairs_of :: "(jsval, jsval list) jsmap \<Rightarrow> (jsval \<times> jsval) list" where
  "pairs_of tagMap = concat (map (\<lambda>st. map (\<lambda>t. (fst st, t)) (snd st)) tagMap)"

definition getSortedTags :: "jsval \<Rightarrow> ((jsval, jsval list) jsmap \<Rightarrow> 'a) \<Rightarrow> pimple \<Rightarrow> 'a" where
  "getSortedTags tagName sortFunction c = sortFunction (getTag tagName c)"

text \<open>The function that \<open>overTags\<close> passes to \<open>getSortedTags\<close>.\<close>

definition sorted_pairs :: "lodash_get \<Rightarrow> string \<Rightarrow> int \<Rightarrow> (jsval, jsval list) jsmap \<Rightarrow> (jsval \<times> jsval) list" where
  "sorted_pairs G field ord tagMap = Array_sort (compare_tags G field ord) (pairs_of tagMap)"

text \<open>
  The validation of \<open>sortOptions\<close> by the schema: an object with the keys \<open>field\<close>, a
  non-empty string, and \<open>order\<close>, a number from -1 to 1 that is not 0, and no other key.
  Only values that the schema accepts as they are count as valid here.
\<close>

definition validate :: "jsval \<Rightarrow> error + (string \<times> int)" where
  "validate sortOptions =
     (case sortOptions of
        JObj a fs \<Rightarrow>
          (case (property sortOptions ''field'', property sortOptions ''order'') of
             (JStr f, JNum n) \<Rightarrow>
               if f \<noteq> [] \<and> - 1 \<le> n \<and> n \<le> 1 \<and> n \<noteq> 0 \<and> fst ` set fs \<subseteq> {''field'', ''order''}
               then Inr (f, n) else Inl ValidationError
           | _ \<Rightarrow> Inl ValidationError)
      | _ \<Rightarrow> Inl ValidationError)"

text \<open>An element of an array, \<open>undefined\<close> out of range.\<close>

fun element :: "jsval \<Rightarrow> nat \<Rightarrow> jsval" where
  "element (JArr a vs) i = (if i < length vs then vs ! i else JUndefined)"
| "element v i = JUndefined"

text \<open>The calls of the callback on the pairs, in their order, until one throws.\<close>

fun visit :: "env \<Rightarrow> jsval \<Rightarrow> (jsval \<times> jsval) list \<Rightarrow> pimple \<Rightarrow> pimple \<times> (error + unit)" where
  "visit E callback [] c = (c, Inr ())"
| "visit E callback (p # ps) c =
     (case callback of
        JFun f \<Rightarrow>
          (case call E f (AVal JUndefined) [AVal (fst p), AVal (snd p)] (trace c) of
             Inl e \<Rightarrow> (log [Called f (AVal JUndefined) [AVal (fst p), AVal (snd p)]] c, Inl e)
           | Inr r \<Rightarrow> visit E callback ps (log [Called f (AVal JUndefined) [AVal (fst p), AVal (snd p)]] c))
      | _ \<Rightarrow> (c, Inl TypeError))"

definition overTags :: "env \<Rightarrow> lodash_get \<Rightarrow> jsval \<Rightarrow> jsval \<Rightarrow> jsval \<Rightarrow> pimple \<Rightarrow> pimple \<times> (error + unit)" where
  "overTags E G tagName arg1 arg2 c =
     (let callback = (if isFunction arg1 then arg1 else arg2);
          sortOptions = (if isFunction arg1 then JUndefined else arg1)
      in if truthy sortOptions then
           (let (sortOptions', c') =
                  (if isArray sortOptions
                   then (JObj (next_addr c) [(''field'', element sortOptions 0), (''order'', element sortOptions 1)],
                         c\<lparr>next_addr := Suc (next_addr c)\<rparr>)
                   else (sortOptions, c))
            in case validate sortOptions' of
                 Inl e \<Rightarrow> (c', Inl e)
               | Inr (field, ord) \<Rightarrow>
                   visit E callback (getSortedTags tagName (sorted_pairs G field ord) c') c')
         else visit E callback (pairs_of (getTag tagName c)) c)"

section \<open>Notions used in the statements\<close>

text \<open>The tags that \<open>normalizeTag\<close> yields for a list of tags, from the free address \<open>n\<close> on.\<close>

fun normalized :: "jsval list \<Rightarrow> nat \<Rightarrow> jsval list" where
  "normalized [] n = []"
| "normalized (t # ts) n =
     (case normalizeTag t n of
        Inl e \<Rightarrow> []
      | Inr (plainTag, n') \<Rightarrow> plainTag # normalized ts n')"

text \<open>One call \<open>tag(service, t)\<close> for each tag of a list, in order.\<close>

fun tag_each :: "jsval \<Rightarrow> jsval list \<Rightarrow> pimple \<Rightarrow> pimple \<times> (error + unit)" where
  "tag_each service [] c = (c, Inr ())"
| "tag_each service (t # ts) c =
     (case tag service [t] c of
        (c', Inl e) \<Rightarrow> (c', Inl e)
      | (c', Inr u) \<Rightarrow> tag_each service ts c')"

text \<open>The list that \<open>getTag(tagName)\<close> holds for a service, empty when it holds none.\<close>

definition tags_for :: "jsval \<Rightarrow> jsval \<Rightarrow> pimple \<Rightarrow> jsval list" where
  "tags_for tagName service c =
     (case Map_get (getTag tagName c) service of None \<Rightarrow> [] | Some ts \<Rightarrow> ts)"

text \<open>\<open>n\<close> calls of \<open>get(serviceId)\<close> on the container in a row, with their results.\<close>

fun get_times :: "env \<Rightarrow> string \<Rightarrow> nat \<Rightarrow> pimple \<Rightarrow> pimple \<times> (error + jsval) list" where
  "get_times E serviceId 0 c = (c, [])"
| "get_times E serviceId (Suc n) c =
     (case call_get E serviceId c of
        (c', r) \<Rightarrow> (case get_times E serviceId n c' of (c'', rs) \<Rightarrow> (c'', r # rs)))"

text \<open>The events of a run from the state \<open>c\<close> to the state \<open>c'\<close>.\<close>

definition events :: "pimple \<Rightarrow> pimple \<Rightarrow> event list" where
  "events c c' = drop (length (trace c)) (trace c')"

text \<open>The labels whose callbacks were applied for the Definition at \<open>d\<close>, in order.\<close>

fun fired :: "nat \<Rightarrow> event list \<Rightarrow> string list" where
  "fired d [] = []"
| "fired d (Labelled d' l # es) = (if d' = d then l # fired d es else fired d es)"
| "fired d (e # es) = fired d es"





text \<open>A user whose functions all return \<open>undefined\<close> and change nothing.\<close>

definition quiet :: env where
  "quiet = \<lparr>call = (\<lambda>f self as h. Inr JUndefined), touch = (\<lambda>f self as h v. v)\<rparr>"



text \<open>
  An inner resolver that does not call the resolver of another Definition: what
  \<open>createResolver\<close> builds from a value or from a function of the user.
\<close>

fun flat :: "inner \<Rightarrow> bool" where
  "flat (BoundResolver r ctx as) = False"
| "flat i = True"

text \<open>The Definition at \<open>a\<close> holds a resolver of its own with such an inner resolver.\<close>

definition compiled_flat :: "pimple \<Rightarrow> nat \<Rightarrow> bool" where
  "compiled_flat c a =
     (case d_resolve (heap c a) of
        None \<Rightarrow> False
      | Some (Resolver a' i k) \<Rightarrow> a' = a \<and> flat i)"

text \<open>A user whose functions return \<open>undefined\<close> and push the number 1 on an array they are passed.\<close>

definition pusher :: env where
  "pusher = \<lparr>call = (\<lambda>f self as h. Inr JUndefined),
             touch = (\<lambda>f self as h v. case v of JArr a vs \<Rightarrow> JArr a (vs @ [JNum 1]) | _ \<Rightarrow> v)\<rparr>"

text \<open>
  Two states of the container that differ at most in the cells of \<open>_.once\<close>, the next free
  address of objects and the events.
\<close>

definition frame :: "pimple \<Rightarrow> pimple \<Rightarrow> bool" where
  "frame c c' = (c' = c\<lparr>cells := cells c', next_addr := next_addr c', trace := trace c'\<rparr>)"





text \<open>
  The container of the test of several labels: two labels are defined and the empty array
  at address 0 is registered as the service \<open>array\<close>, not shared.
\<close>

definition plain_array :: pimple where
  "plain_array =
     fst (set_service pusher ''array'' (SVal (JArr 0 [])) []
       (defineLabel ''pushEverything'' (JFun 2)
         (defineLabel ''pushCount'' (JFun 1) (empty_pimple True 1))))"


section \<open>Tagging\<close>

lemma tags_for_tag_push:
  "tags c' = tag_push s' p (tags c) \<Longrightarrow>
   tags_for tagName s c' =
     (if property p ''name'' = tagName \<and> s' = s then tags_for tagName s c @ [p]
      else tags_for tagName s c)"
  by (auto simp: tags_for_def getTag_def tag_push_def Map_has_def Map_get_def Map_set_def
        Let_def update_conv' split: option.splits)

lemma normalizeTag_cases:
  "normalizeTag t n =
     (if isString t then Inr (JObj n [(''name'', t)], Suc n)
      else if isPlainObject t \<and> has t ''name'' then Inr (t, n) else Inl InvalidTag)"
  by (simp add: normalizeTag_def)

lemma tag_each_tag: "tag_each service ts c = tag service ts c"
  by (induction ts arbitrary: c) (auto simp: tag_def split: sum.splits prod.splits)

lemma tag_loop_same_name:
  assumes "\<forall>t\<in>set ts. (isString t \<and> t = tagName) \<or>
             (isPlainObject t \<and> has t ''name'' \<and> property t ''name'' = tagName)"
  shows "snd (tag_loop service ts c) = Inr () \<and>
         tags_for tagName service (fst (tag_loop service ts c)) =
           tags_for tagName service c @ normalized ts (next_addr c) \<and>
         definitions (fst (tag_loop service ts c)) = definitions c"
  using assms
proof (induction ts arbitrary: c)
  case Nil
  then show ?case by simp
next
  case (Cons t ts)
  from Cons.prems have t: "(isString t \<and> t = tagName) \<or>
      (isPlainObject t \<and> has t ''name'' \<and> property t ''name'' = tagName)"
    and rest: "\<forall>t\<in>set ts. (isString t \<and> t = tagName) \<or>
             (isPlainObject t \<and> has t ''name'' \<and> property t ''name'' = tagName)"
    by simp_all
  from t show ?case
  proof
    assume a: "isString t \<and> t = tagName"
    then obtain s where s: "t = JStr s" "tagName = JStr s" by (cases t) auto
    show ?thesis
      using Cons.IH [OF rest, of "c\<lparr>tags := tag_push service (JObj (next_addr c) [(''name'', t)]) (tags c), next_addr := Suc (next_addr c)\<rparr>"]
      by (simp add: s normalizeTag_cases tags_for_tag_push)
  next
    assume a: "isPlainObject t \<and> has t ''name'' \<and> property t ''name'' = tagName"
    then have ns: "\<not> isString t" by (cases t) auto
    show ?thesis
      using Cons.IH [OF rest, of "c\<lparr>tags := tag_push service t (tags c), next_addr := next_addr c\<rparr>"]
      by (simp add: a ns normalizeTag_cases tags_for_tag_push)
  qed
qed

lemma normalized_nth:
  assumes "\<forall>t\<in>set ts. isString t \<or> (isPlainObject t \<and> has t ''name'')"
  shows "length (normalized ts n) = length ts \<and>
         (\<forall>i<length ts. if isString (ts ! i) then \<exists>a. normalized ts n ! i = JObj a [(''name'', ts ! i)]
                         else normalized ts n ! i = ts ! i)"
  using assms
proof (induction ts arbitrary: n)
  case Nil
  then show ?case by simp
next
  case (Cons t ts)
  then show ?case
    apply (simp add: normalizeTag_cases)
    apply (auto simp: nth_Cons split: nat.splits)
    done
qed


lemma tag_loop_malformed:
  assumes "\<exists>t\<in>set ts. \<not> isString t \<and> \<not> (isPlainObject t \<and> has t ''name'')"
  shows "snd (tag_loop service ts c) = Inl InvalidTag"
  using assms
proof (induction ts arbitrary: c)
  case Nil
  then show ?case by simp
next
  case (Cons t ts)
  show ?case
  proof (cases "isString t \<or> (isPlainObject t \<and> has t ''name'')")
    case True
    with Cons.prems have "\<exists>t\<in>set ts. \<not> isString t \<and> \<not> (isPlainObject t \<and> has t ''name'')"
      by auto
    from Cons.IH [OF this] show ?thesis
      by (simp add: normalizeTag_cases)
  next
    case False
    then show ?thesis by (auto simp: normalizeTag_cases)
  qed
qed

text \<open>
  Claim C7. A tag that is a string \<open>s\<close> is recorded as the new object \<open>{name: s}\<close>; a
  plain object with a property \<open>name\<close> is recorded as it is, under its name; and a call
  of \<open>tag\<close> with a tag that is neither raises the error of \<open>normalizeTag\<close>.
\<close>

theorem tag_normalization:
  "(isString t \<longrightarrow>
      snd (tag service [t] c) = Inr () \<and>
      tags_for t service (fst (tag service [t] c)) =
        tags_for t service c @ [JObj (next_addr c) [(''name'', t)]]) \<and>
   (isPlainObject t \<and> has t ''name'' \<longrightarrow>
      snd (tag service [t] c) = Inr () \<and>
      tags_for (property t ''name'') service (fst (tag service [t] c)) =
        tags_for (property t ''name'') service c @ [t]) \<and>
   ((\<exists>t\<in>set ts. \<not> isString t \<and> \<not> (isPlainObject t \<and> has t ''name'')) \<longrightarrow>
      snd (tag service ts c) = Inl InvalidTag)"
proof (intro conjI impI)
  assume s: "isString t"
  have "\<forall>x\<in>set [t]. (isString x \<and> x = t) \<or>
          (isPlainObject x \<and> has x ''name'' \<and> property x ''name'' = t)"
    using s by simp
  from tag_loop_same_name [OF this, of service c]
  show "snd (tag service [t] c) = Inr ()"
    and "tags_for t service (fst (tag service [t] c)) =
        tags_for t service c @ [JObj (next_addr c) [(''name'', t)]]"
    using s by (simp_all add: tag_def normalizeTag_cases)
next
  assume o: "isPlainObject t \<and> has t ''name''"
  then have ns: "\<not> isString t" by (cases t) auto
  have "\<forall>x\<in>set [t]. (isString x \<and> x = property t ''name'') \<or>
          (isPlainObject x \<and> has x ''name'' \<and> property x ''name'' = property t ''name'')"
    using o by simp
  from tag_loop_same_name [OF this, of service c]
  show "snd (tag service [t] c) = Inr ()"
    and "tags_for (property t ''name'') service (fst (tag service [t] c)) =
        tags_for (property t ''name'') service c @ [t]"
    using o ns by (simp_all add: tag_def normalizeTag_cases)
next
  assume "\<exists>t\<in>set ts. \<not> isString t \<and> \<not> (isPlainObject t \<and> has t ''name'')"
  then show "snd (tag service ts c) = Inl InvalidTag"
    by (simp add: tag_def tag_loop_malformed)
qed

theorem tag_normalization_witness:
  "isString (JStr ''x'') \<and>
   tags_for (JStr ''x'') (JStr ''a'') (fst (tag (JStr ''a'') [JStr ''x''] (empty_pimple True 5))) =
     [JObj 5 [(''name'', JStr ''x'')]] \<and>
   isPlainObject (JObj 1 [(''name'', JStr ''y''), (''val'', JNum 42)]) \<and>
   has (JObj 1 [(''name'', JStr ''y''), (''val'', JNum 42)]) ''name'' \<and>
   tags_for (JStr ''y'') (JStr ''a'')
     (fst (tag (JStr ''a'') [JObj 1 [(''name'', JStr ''y''), (''val'', JNum 42)]] (empty_pimple True 5))) =
     [JObj 1 [(''name'', JStr ''y''), (''val'', JNum 42)]] \<and>
   (\<exists>t\<in>set [JStr ''x'', JNum 7]. \<not> isString t \<and> \<not> (isPlainObject t \<and> has t ''name'')) \<and>
   snd (tag (JStr ''a'') [JStr ''x'', JNum 7] (empty_pimple True 5)) = Inl InvalidTag"
  using tag_normalization [of "JStr ''x''" "JStr ''a''" "empty_pimple True 5" "[JStr ''x'', JNum 7]"]
    tag_normalization [of "JObj 1 [(''name'', JStr ''y''), (''val'', JNum 42)]" "JStr ''a''"
      "empty_pimple True 5" "[]"]
  by (simp add: tags_for_def getTag_def empty_pimple_def Map_has_def Map_get_def)

text \<open>
  Claim C8. \<open>n\<close> calls of \<open>tag\<close> for one service with tags of one name, strings or
  objects, add exactly \<open>n\<close> entries to the list that \<open>getTag\<close> holds for the service,
  after the entries that were there, in the order of the calls: an object is entered
  as it is each time it is given, a string as a new object each time.
\<close>

theorem tag_accumulates:
  assumes "\<forall>t\<in>set ts. (isString t \<and> t = tagName) \<or>
             (isPlainObject t \<and> has t ''name'' \<and> property t ''name'' = tagName)"
  shows "snd (tag_each service ts c) = Inr () \<and>
         tags_for tagName service (fst (tag_each service ts c)) =
           tags_for tagName service c @ normalized ts (next_addr c) \<and>
         length (normalized ts (next_addr c)) = length ts \<and>
         (\<forall>i<length ts.
            if isString (ts ! i)
            then \<exists>a. normalized ts (next_addr c) ! i = JObj a [(''name'', ts ! i)]
            else normalized ts (next_addr c) ! i = ts ! i)"
proof -
  have wf: "\<forall>t\<in>set ts. isString t \<or> (isPlainObject t \<and> has t ''name'')"
    using assms by blast
  show ?thesis
    using tag_loop_same_name [OF assms, of service c] normalized_nth [OF wf, of "next_addr c"]
    by (simp add: tag_each_tag tag_def)
qed

theorem tag_accumulates_witness:
  "tags_for (JStr ''x'') (JStr ''a'')
     (fst (tag_each (JStr ''a'') [JStr ''x'', JObj 1 [(''name'', JStr ''x'')], JObj 1 [(''name'', JStr ''x'')]]
        (empty_pimple True 5))) =
     [JObj 5 [(''name'', JStr ''x'')], JObj 1 [(''name'', JStr ''x'')], JObj 1 [(''name'', JStr ''x'')]]"
proof -
  have h: "\<forall>t\<in>set [JStr ''x'', JObj 1 [(''name'', JStr ''x'')], JObj 1 [(''name'', JStr ''x'')]].
      (isString t \<and> t = JStr ''x'') \<or>
      (isPlainObject t \<and> has t ''name'' \<and> property t ''name'' = JStr ''x'')"
    by simp
  show ?thesis
    using tag_accumulates [OF h, of "JStr ''a''" "empty_pimple True 5"]
    by (simp add: tags_for_def getTag_def empty_pimple_def Map_has_def Map_get_def normalizeTag_cases)
qed

text \<open>
  Claim C10. \<open>tag\<close> does not look the service up: for a service that has no definition
  and a well-formed tag, the call returns, the normalised tag is the last entry of the
  list that \<open>getTag\<close> holds for the service under the name of the tag, and the service
  is still not defined, so that \<open>addLabel\<close> on it raises: the error that the service is
  not defined, or the error of the exhausted stack when \<open>getDefinition\<close> is hidden.
\<close>

theorem tag_unregistered:
  assumes "definitions c serviceId = None"
    and "isString t \<or> (isPlainObject t \<and> has t ''name'')"
  shows "\<exists>p n. normalizeTag t (next_addr c) = Inr (p, n) \<and>
           snd (tag (JStr serviceId) [t] c) = Inr () \<and>
           tags_for (property p ''name'') (JStr serviceId) (fst (tag (JStr serviceId) [t] c)) =
             tags_for (property p ''name'') (JStr serviceId) c @ [p] \<and>
           definitions (fst (tag (JStr serviceId) [t] c)) serviceId = None \<and>
           snd (addLabel E serviceId ls c) =
             Inl (if hidden c ''getDefinition'' then RangeError else ServiceNotDefined serviceId)"
proof -
  have "\<exists>p n. normalizeTag t (next_addr c) = Inr (p, n)"
    using assms(2) by (auto simp: normalizeTag_def)
  then obtain p n where pn: "normalizeTag t (next_addr c) = Inr (p, n)"
    by blast
  have "tag (JStr serviceId) [t] c =
          (c\<lparr>tags := tag_push (JStr serviceId) p (tags c), next_addr := n\<rparr>, Inr ())"
    by (simp add: tag_def pn)
  moreover have "tags_for (property p ''name'') (JStr serviceId)
      (c\<lparr>tags := tag_push (JStr serviceId) p (tags c), next_addr := n\<rparr>) =
      tags_for (property p ''name'') (JStr serviceId) c @ [p]"
    by (simp add: tags_for_tag_push)
  ultimately show ?thesis
    using pn assms(1) by (simp add: addLabel_def call_getDefinition_def getDefinition_def)
qed

theorem tag_unregistered_witness:
  "snd (tag (JStr ''ghost'') [JStr ''x''] (empty_pimple True 3)) = Inr () \<and>
   tags_for (JStr ''x'') (JStr ''ghost'') (fst (tag (JStr ''ghost'') [JStr ''x''] (empty_pimple True 3))) =
     [JObj 3 [(''name'', JStr ''x'')]] \<and>
   snd (addLabel quiet ''ghost'' [''l''] (empty_pimple True 3)) = Inl (ServiceNotDefined ''ghost'')"
proof -
  have h: "definitions (empty_pimple True 3) ''ghost'' = None"
    by (simp add: empty_pimple_def)
  have w: "isString (JStr ''x'') \<or> (isPlainObject (JStr ''x'') \<and> has (JStr ''x'') ''name'')"
    by simp
  show ?thesis
    using tag_unregistered [OF h w, of quiet "[''l'']"]
    by (auto simp: normalizeTag_def tags_for_def getTag_def empty_pimple_def Map_has_def Map_get_def
          Map_set_def tag_def tag_push_def hidden_def Let_def)
qed

section \<open>The guard of setRaw\<close>

text \<open>
  Claim C2. The guard of \<open>setRaw\<close> applies \<open>!\<close> before \<open>instanceof\<close>, so it tests a
  boolean and never raises. Given the number 42, \<open>setRaw\<close> fails with a type error on
  the call of \<open>compile\<close>, not with the error of the guard; given an object with a method
  \<open>compile\<close>, it returns and stores the object in the definitions.
\<close>

theorem setRaw_non_definition:
  "\<not> instanceof_Definition (js_not x) \<and>
   setRaw E serviceId (SVal (JNum 42)) [] c = (c, Inl TypeError) \<and>
   snd (setRaw quiet ''x'' (SVal (JObj 7 [(''compile'', JFun 0)])) [] (empty_pimple True 8)) = Inr () \<and>
   definitions (fst (setRaw quiet ''x'' (SVal (JObj 7 [(''compile'', JFun 0)])) [] (empty_pimple True 8))) ''x'' =
     Some (SVal (JObj 7 [(''compile'', JFun 0)])) \<and>
   definitions (empty_pimple True 8) ''x'' = None"
  by (simp add: setRaw_def js_not_def compile_call_def call_method_def Let_def log_def
        quiet_def empty_pimple_def isReserved_def)

section \<open>Sorted iteration\<close>





















section \<open>Resolution\<close>

lemma fired_append: "fired d (es @ es') = fired d es @ fired d es'"
  by (induction d es rule: fired.induct) auto


lemma apply_labels_effect:
  assumes "apply_labels E d ls inst c = (c', r)"
  shows "\<exists>es. c' = log es c \<and>
           (\<forall>a. count_list es (Invoked a) = 0) \<and>
           (\<forall>a. count_list es (Ran a) = 0) \<and>
           (\<forall>d'. d' \<noteq> d \<longrightarrow> fired d' es = []) \<and>
           (\<forall>v. r = Inr v \<longrightarrow> fired d es = ls)"
  using assms
proof (induction ls arbitrary: inst c)
  case Nil
  then have "c' = log [] c" "r = Inr inst" by (simp_all add: log_def)
  then show ?case by (intro exI [of _ "[]"]) simp
next
  case (Cons l ls)
  show ?case
  proof (cases "getLabel c l")
    case (Inl e)
    with Cons.prems have "c' = log [] c" "r = Inl e" by (simp_all add: log_def)
    then show ?thesis by (intro exI [of _ "[]"]) simp
  next
    case (Inr callback)
    show ?thesis
    proof (cases callback)
      case (JFun f)
      let ?as = "[AVal inst, AContainer, AVal (ID_value c d)]"
      let ?c1 = "log [Labelled d l, Called f (ADef d) ?as] c"
      show ?thesis
      proof (cases "call E f (ADef d) ?as (trace c)")
        case (Inl e)
        with Cons.prems Inr JFun have "c' = ?c1" "r = Inl e"
          by (simp_all add: Let_def)
        then show ?thesis
          by (intro exI [of _ "[Labelled d l, Called f (ADef d) ?as]"]) simp
      next
        case (Inr x)
        with Cons.prems \<open>getLabel c l = Inr callback\<close> JFun
        have "apply_labels E d ls (mutated inst (touch E f (ADef d) ?as (trace c) inst)) ?c1 = (c', r)"
          by (simp add: Let_def)
        from Cons.IH [OF this] obtain es where
          es: "c' = log es ?c1" "\<forall>a. count_list es (Invoked a) = 0" "\<forall>a. count_list es (Ran a) = 0"
            "\<forall>d'. d' \<noteq> d \<longrightarrow> fired d' es = []" "\<forall>v. r = Inr v \<longrightarrow> fired d es = ls"
          by blast
        show ?thesis
          using es
          by (intro exI [of _ "[Labelled d l, Called f (ADef d) ?as] @ es"])
             (simp add: log_def)
      qed
    qed (use Cons.prems Inr in \<open>auto simp: log_def intro!: exI [of _ "[]"]\<close>)
  qed
qed


lemma frame_refl: "frame c c"
  by (simp add: frame_def)

lemma frame_trans: "frame c c1 \<Longrightarrow> frame c1 c2 \<Longrightarrow> frame c c2"
  unfolding frame_def by (cases c, cases c1, cases c2) simp

lemma frame_log: "frame c (log es c)"
  by (simp add: frame_def log_def)

lemma frame_fields:
  assumes "frame c c'"
  shows "heap c' = heap c" "definitions c' = definitions c" "labels c' = labels c"
    "deepClone c' = deepClone c" "tags c' = tags c" "next_def c' = next_def c"
    "accessors c' = accessors c"
proof -
  from assms have e: "c' = c\<lparr>cells := cells c', next_addr := next_addr c', trace := trace c'\<rparr>"
    by (simp add: frame_def)
  show "heap c' = heap c" by (subst e) simp
  show "definitions c' = definitions c" by (subst e) simp
  show "labels c' = labels c" by (subst e) simp
  show "deepClone c' = deepClone c" by (subst e) simp
  show "tags c' = tags c" by (subst e) simp
  show "next_def c' = next_def c" by (subst e) simp
  show "accessors c' = accessors c" by (subst e) simp
qed

lemma hidden_frame: "frame c c' \<Longrightarrow> hidden c' m = hidden c m"
  by (simp add: hidden_def frame_fields)

lemma run_inner_flat:
  assumes "flat i" and "run_inner E d i c = (c', r)"
  shows "frame c c' \<and> cells c' = cells c \<and>
         (\<exists>es. trace c' = trace c @ es \<and>
            (\<forall>a. count_list es (Invoked a) = 0) \<and> (\<forall>a. count_list es (Ran a) = 0) \<and>
            (\<forall>d'. fired d' es = []))"
proof (cases i)
  case (BoundUser f ctx as)
  with assms(2) have "c' = log [Called f ctx as] c" by simp
  then show ?thesis
    using frame_log [of c "[Called f ctx as]"]
    by (auto simp: log_def intro!: exI [of _ "[Called f ctx as]"])
next
  case (BoundResolver r' ctx as)
  with assms(1) show ?thesis by simp
next
  case (ObjectThunk v)
  with assms(2) have "\<exists>n. c' = c\<lparr>next_addr := n\<rparr>"
    by (auto split: if_splits prod.splits intro: exI [of _ "next_addr c"])
  then show ?thesis
    by (auto simp: frame_def)
next
  case (Constant v)
  with assms(2) show ?thesis by (simp add: frame_refl)
qed

lemma wrapped_run_flat:
  assumes "flat i" and "wrapped E d (run_inner E d i c) = (c', r)"
  shows "frame c c' \<and> cells c' = cells c \<and>
         (\<exists>es. trace c' = trace c @ es \<and>
            (\<forall>a. count_list es (Invoked a) = 0) \<and> (\<forall>a. count_list es (Ran a) = 0) \<and>
            (\<forall>d'. d' \<noteq> d \<longrightarrow> fired d' es = []) \<and>
            (\<forall>v. r = Inr v \<longrightarrow> fired d es = d_labels (heap c d)))"
proof -
  obtain c1 r1 where run: "run_inner E d i c = (c1, r1)"
    by (cases "run_inner E d i c")
  from run_inner_flat [OF assms(1) run] obtain es1 where
    f1: "frame c c1" and k1: "cells c1 = cells c" and t1: "trace c1 = trace c @ es1"
    and e1: "\<forall>a. count_list es1 (Invoked a) = 0" "\<forall>a. count_list es1 (Ran a) = 0"
      "\<forall>d'. fired d' es1 = []"
    by blast
  show ?thesis
  proof (cases r1)
    case (Inl e)
    with assms(2) run have "c' = c1" "r = Inl e" by (simp_all add: wrapped_def)
    with f1 k1 t1 e1 show ?thesis by auto
  next
    case (Inr inst)
    with assms(2) run have "apply_labels E d (d_labels (heap c1 d)) inst c1 = (c', r)"
      by (simp add: wrapped_def)
    from apply_labels_effect [OF this] obtain es where
      es: "c' = log es c1" "\<forall>a. count_list es (Invoked a) = 0" "\<forall>a. count_list es (Ran a) = 0"
        "\<forall>d'. d' \<noteq> d \<longrightarrow> fired d' es = []"
        "\<forall>v. r = Inr v \<longrightarrow> fired d es = d_labels (heap c1 d)"
      by blast
    have f: "frame c c'"
      using f1 es(1) frame_log frame_trans by blast
    have k: "cells c' = cells c"
      using es(1) k1 by (simp add: log_def)
    have t: "trace c' = trace c @ (es1 @ es)"
      using es(1) t1 by (simp add: log_def)
    have h: "heap c1 = heap c"
      using f1 by (rule frame_fields)
    show ?thesis
      using f k t e1 es(2-5) h
      by (intro conjI exI [of _ "es1 @ es"]) (simp_all add: fired_append)
  qed
qed

lemma invoke_cached:
  assumes "cells c k = Called_once v"
  shows "invoke E (Resolver d i (Some k)) c = (log [Invoked d] c, Inr v)"
  using assms by simp

lemma invoke_flat:
  assumes "flat i" and "invoke E (Resolver d i k) c = (c', r)"
  shows "frame c c' \<and>
         (\<exists>es. trace c' = trace c @ es \<and>
            (\<forall>a. count_list es (Invoked a) = (if a = d then 1 else 0)) \<and>
            (\<forall>d'. d' \<noteq> d \<longrightarrow> fired d' es = [] \<and> count_list es (Ran d') = 0) \<and>
            ((k = None \<or> (\<exists>k'. k = Some k' \<and> cells c k' = Fresh)) \<longrightarrow>
               count_list es (Ran d) = 1 \<and>
               (\<forall>v. r = Inr v \<longrightarrow> fired d es = d_labels (heap c d) \<and>
                  (\<forall>k'. k = Some k' \<longrightarrow> cells c' k' = Called_once v))))"
proof (cases k)
  case None
  let ?c0 = "log [Invoked d, Ran d] c"
  from assms(2) None have "wrapped E d (run_inner E d i ?c0) = (c', r)" by simp
  from wrapped_run_flat [OF assms(1) this] obtain es where
    f: "frame ?c0 c'" and t: "trace c' = trace ?c0 @ es"
    and e: "\<forall>a. count_list es (Invoked a) = 0" "\<forall>a. count_list es (Ran a) = 0"
      "\<forall>d'. d' \<noteq> d \<longrightarrow> fired d' es = []"
      "\<forall>v. r = Inr v \<longrightarrow> fired d es = d_labels (heap ?c0 d)"
    by blast
  have "frame c c'" using frame_log f frame_trans by blast
  moreover have "trace c' = trace c @ ([Invoked d, Ran d] @ es)"
    using t by (simp add: log_def)
  moreover have "heap ?c0 = heap c" by (simp add: log_def)
  ultimately show ?thesis
    using e None
    by (intro conjI exI [of _ "[Invoked d, Ran d] @ es"]) (simp_all add: fired_append)
next
  case (Some k')
  show ?thesis
  proof (cases "cells c k'")
    case (Called_once v)
    with assms(2) Some have "c' = log [Invoked d] c" by simp
    then show ?thesis
      using Some Called_once frame_log [of c "[Invoked d]"]
      by (intro conjI exI [of _ "[Invoked d]"]) (simp_all add: log_def)
  next
    case Fresh
    let ?c0 = "log [Invoked d, Ran d] (c\<lparr>cells := (cells c)(k' := Called_once JUndefined)\<rparr>)"
    obtain c1 r1 where w: "wrapped E d (run_inner E d i ?c0) = (c1, r1)"
      by (cases "wrapped E d (run_inner E d i ?c0)")
    from assms(2) Some Fresh w have rem: "remember k' (c1, r1) = (c', r)" by simp
    from wrapped_run_flat [OF assms(1) w] obtain es where
      f: "frame ?c0 c1" and t: "trace c1 = trace ?c0 @ es"
      and e: "\<forall>a. count_list es (Invoked a) = 0" "\<forall>a. count_list es (Ran a) = 0"
        "\<forall>d'. d' \<noteq> d \<longrightarrow> fired d' es = []"
        "\<forall>v. r1 = Inr v \<longrightarrow> fired d es = d_labels (heap ?c0 d)"
      by blast
    have f0: "frame c ?c0" by (simp add: frame_def log_def)
    have f1: "frame c1 c'" and r: "r = r1" and tr: "trace c' = trace c1"
      and kk: "\<forall>v. r = Inr v \<longrightarrow> cells c' k' = Called_once v"
      using rem by (auto simp: remember_def frame_def split: sum.splits)
    have "frame c c'" using f0 f f1 frame_trans by blast
    moreover have "trace c' = trace c @ ([Invoked d, Ran d] @ es)"
      using t tr by (simp add: log_def)
    moreover have "heap ?c0 = heap c" by (simp add: log_def)
    ultimately show ?thesis
      using e Some Fresh r kk
      by (intro conjI exI [of _ "[Invoked d, Ran d] @ es"]) (simp_all add: fired_append)
  qed
qed


lemma compiled_flat_frame: "frame c c' \<Longrightarrow> compiled_flat c' a = compiled_flat c a"
  by (simp add: compiled_flat_def frame_fields)

lemma resolve_arg_flat:
  assumes "\<forall>a. x = ADef a \<longrightarrow> compiled_flat c a" and "resolve_arg E x c = (c', r)"
  shows "frame c c' \<and>
         (\<exists>es. trace c' = trace c @ es \<and>
            (\<forall>a. count_list es (Invoked a) = (if x = ADef a then 1 else 0)) \<and>
            (\<forall>y. r = Inr y \<longrightarrow> (case x of ADef a \<Rightarrow> (\<exists>v. y = AVal v) | _ \<Rightarrow> y = x)))"
proof (cases x)
  case (AVal v)
  with assms(2) show ?thesis by (auto simp: resolve_arg_def frame_refl)
next
  case AContainer
  with assms(2) show ?thesis by (auto simp: resolve_arg_def frame_refl)
next
  case (ADef a)
  with assms(1) have "compiled_flat c a" by simp
  then obtain i k where res: "d_resolve (heap c a) = Some (Resolver a i k)" and fl: "flat i"
    by (auto simp: compiled_flat_def split: option.splits resolver.splits)
  obtain c1 r1 where inv: "invoke E (Resolver a i k) c = (c1, r1)"
    by (cases "invoke E (Resolver a i k) c")
  from assms(2) ADef res inv have c': "c' = c1"
    and r: "r = (case r1 of Inl e \<Rightarrow> Inl e | Inr v \<Rightarrow> Inr (AVal v))"
    by (auto simp: resolve_arg_def split: sum.splits)
  from invoke_flat [OF fl inv] obtain es where
    "frame c c1" "trace c1 = trace c @ es"
    "\<forall>a'. count_list es (Invoked a') = (if a' = a then 1 else 0)"
    by blast
  then show ?thesis
    using c' r ADef
    by (intro conjI exI [of _ es]) (auto split: sum.splits)
qed

lemma arguments_flat:
  assumes "\<forall>a. ADef a \<in> set as \<longrightarrow> compiled_flat c a" and "arguments E as c = (c', r)"
  shows "frame c c' \<and>
         (\<exists>es. trace c' = trace c @ es \<and>
            (\<forall>vs. r = Inr vs \<longrightarrow>
               length vs = length as \<and>
               (\<forall>a. count_list es (Invoked a) = count_list as (ADef a)) \<and>
               (\<forall>i<length as. case as ! i of ADef a \<Rightarrow> (\<exists>v. vs ! i = AVal v) | _ \<Rightarrow> vs ! i = as ! i)))"
  using assms
proof (induction as arbitrary: c c' r)
  case Nil
  then show ?case by (auto simp: frame_refl)
next
  case (Cons x as)
  obtain c1 r1 where ra: "resolve_arg E x c = (c1, r1)"
    by (cases "resolve_arg E x c")
  have hx: "\<forall>a. x = ADef a \<longrightarrow> compiled_flat c a"
    using Cons.prems(1) by simp
  from resolve_arg_flat [OF hx ra] obtain es1 where
    f1: "frame c c1" and t1: "trace c1 = trace c @ es1"
    and n1: "\<forall>a. count_list es1 (Invoked a) = (if x = ADef a then 1 else 0)"
    and v1: "\<forall>y. r1 = Inr y \<longrightarrow> (case x of ADef a \<Rightarrow> (\<exists>v. y = AVal v) | _ \<Rightarrow> y = x)"
    by blast
  show ?case
  proof (cases r1)
    case (Inl e)
    with Cons.prems(2) ra have "c' = c1" "r = Inl e" by simp_all
    with f1 t1 show ?thesis by auto
  next
    case (Inr y)
    obtain c2 r2 where rest: "arguments E as c1 = (c2, r2)"
      by (cases "arguments E as c1")
    have h: "\<forall>a. ADef a \<in> set as \<longrightarrow> compiled_flat c1 a"
      using Cons.prems(1) f1 by (simp add: compiled_flat_frame)
    from Cons.IH [OF h rest] obtain es2 where
      f2: "frame c1 c2" and t2: "trace c2 = trace c1 @ es2"
      and v2: "\<forall>vs. r2 = Inr vs \<longrightarrow>
               length vs = length as \<and>
               (\<forall>a. count_list es2 (Invoked a) = count_list as (ADef a)) \<and>
               (\<forall>i<length as. case as ! i of ADef a \<Rightarrow> (\<exists>v. vs ! i = AVal v) | _ \<Rightarrow> vs ! i = as ! i)"
      by blast
    from Cons.prems(2) ra Inr rest have c': "c' = c2"
      and r: "r = (case r2 of Inl e \<Rightarrow> Inl e | Inr vs \<Rightarrow> Inr (y # vs))"
      by (auto split: sum.splits)
    have f: "frame c c'" using f1 f2 c' frame_trans by blast
    have t: "trace c' = trace c @ (es1 @ es2)" using t1 t2 c' by simp
    have "\<forall>vs. r = Inr vs \<longrightarrow>
               length vs = length (x # as) \<and>
               (\<forall>a. count_list (es1 @ es2) (Invoked a) = count_list (x # as) (ADef a)) \<and>
               (\<forall>i<length (x # as). case (x # as) ! i of ADef a \<Rightarrow> (\<exists>v. vs ! i = AVal v)
                   | _ \<Rightarrow> vs ! i = (x # as) ! i)"
    proof (intro allI impI)
      fix vs assume "r = Inr vs"
      with r obtain ws where ws: "r2 = Inr ws" "vs = y # ws"
        by (cases r2) auto
      from v2 ws(1) have l: "length ws = length as"
        and cnt: "\<forall>a. count_list es2 (Invoked a) = count_list as (ADef a)"
        and nth: "\<forall>i<length as. case as ! i of ADef a \<Rightarrow> (\<exists>v. ws ! i = AVal v) | _ \<Rightarrow> ws ! i = as ! i"
        by blast+
      from v1 Inr have y: "case x of ADef a \<Rightarrow> (\<exists>v. y = AVal v) | _ \<Rightarrow> y = x" by simp
      show "length vs = length (x # as) \<and>
               (\<forall>a. count_list (es1 @ es2) (Invoked a) = count_list (x # as) (ADef a)) \<and>
               (\<forall>i<length (x # as). case (x # as) ! i of ADef a \<Rightarrow> (\<exists>v. vs ! i = AVal v)
                   | _ \<Rightarrow> vs ! i = (x # as) ! i)"
      proof (intro conjI allI impI)
        show "length vs = length (x # as)" using l ws(2) by simp
      next
        fix a show "count_list (es1 @ es2) (Invoked a) = count_list (x # as) (ADef a)"
          using n1 cnt by auto
      next
        fix i assume "i < length (x # as)"
        then show "case (x # as) ! i of ADef a \<Rightarrow> (\<exists>v. vs ! i = AVal v) | _ \<Rightarrow> vs ! i = (x # as) ! i"
        proof (cases i)
          case 0
          with y ws(2) show ?thesis by (auto split: arg.splits)
        next
          case (Suc j)
          with \<open>i < length (x # as)\<close> have "j < length as" by simp
          with nth have "case as ! j of ADef a \<Rightarrow> (\<exists>v. ws ! j = AVal v) | _ \<Rightarrow> ws ! j = as ! j"
            by blast
          with Suc ws(2) show ?thesis by (auto split: arg.splits)
        qed
      qed
    qed
    with f t show ?thesis by blast
  qed
qed


lemma createResolver_effect:
  assumes raw: "definition = RawVal raw"
    and args: "\<forall>a. ADef a \<in> set (d_args (heap c d)) \<longrightarrow> compiled_flat c a"
    and cr: "createResolver E d definition c = (c', Inr i)"
  shows "frame c c' \<and> flat i \<and>
         (\<exists>es vs. trace c' = trace c @ es \<and>
            (case raw of
               JFun f \<Rightarrow>
                 i = BoundUser f (d_context (heap c d)) vs \<and>
                 length vs = length (d_args (heap c d)) \<and>
                 (\<forall>a. count_list es (Invoked a) = count_list (d_args (heap c d)) (ADef a)) \<and>
                 (\<forall>j<length (d_args (heap c d)).
                    case d_args (heap c d) ! j of ADef a \<Rightarrow> (\<exists>v. vs ! j = AVal v)
                    | _ \<Rightarrow> vs ! j = d_args (heap c d) ! j)
             | _ \<Rightarrow> c' = c \<and> es = [] \<and> i = (if isObject raw then ObjectThunk raw else Constant raw)))"
proof (cases "isFunction raw")
  case True
  then obtain f where f: "raw = JFun f" by (cases raw) auto
  obtain c1 r1 where a: "arguments E (d_args (heap c d)) c = (c1, r1)"
    by (cases "arguments E (d_args (heap c d)) c")
  from cr raw f a obtain vs where r1: "r1 = Inr vs" and c': "c' = c1"
    and i: "i = BoundUser f (d_context (heap c d)) vs"
    by (auto simp: createResolver_def bind_args_def split: sum.splits)
  from arguments_flat [OF args a] r1 obtain es where
    "frame c c1" "trace c1 = trace c @ es" "length vs = length (d_args (heap c d))"
    "\<forall>a. count_list es (Invoked a) = count_list (d_args (heap c d)) (ADef a)"
    "\<forall>j<length (d_args (heap c d)).
        case d_args (heap c d) ! j of ADef a \<Rightarrow> (\<exists>v. vs ! j = AVal v)
        | _ \<Rightarrow> vs ! j = d_args (heap c d) ! j"
    by blast
  then show ?thesis
    using c' i f by (intro conjI exI [of _ es] exI [of _ vs]) simp_all
next
  case False
  with cr raw have "c' = c" "i = (if isObject raw then ObjectThunk raw else Constant raw)"
    by (cases raw; simp add: createResolver_def)+
  with False show ?thesis
    by (cases raw) (auto simp: frame_refl)
qed


lemma compile_effect:
  assumes raw: "d_raw (heap c d) = RawVal raw"
    and args: "\<forall>a. ADef a \<in> set (d_args (heap c d)) \<longrightarrow> compiled_flat c a"
    and comp: "compile E d serviceId c = (c', Inr ())"
  shows "\<exists>i es vs.
           d_resolve (heap c' d) =
             Some (Resolver d i (if d_shared (heap c d) then Some (next_cell c) else None)) \<and>
           flat i \<and> trace c' = trace c @ es \<and>
           (case raw of
               JFun f \<Rightarrow>
                 i = BoundUser f (d_context (heap c d)) vs \<and>
                 length vs = length (d_args (heap c d)) \<and>
                 (\<forall>a. count_list es (Invoked a) = count_list (d_args (heap c d)) (ADef a)) \<and>
                 (\<forall>j<length (d_args (heap c d)).
                    case d_args (heap c d) ! j of ADef a \<Rightarrow> (\<exists>v. vs ! j = AVal v)
                    | _ \<Rightarrow> vs ! j = d_args (heap c d) ! j)
             | _ \<Rightarrow> next_addr c' = next_addr c \<and> es = [] \<and>
                 i = (if isObject raw then ObjectThunk raw else Constant raw)) \<and>
           (d_shared (heap c d) \<longrightarrow> cells c' (next_cell c) = Fresh) \<and>
           definitions c' = definitions c \<and> labels c' = labels c \<and>
           deepClone c' = deepClone c \<and> tags c' = tags c \<and>
           d_labels (heap c' d) = d_labels (heap c d) \<and>
           d_shared (heap c' d) = d_shared (heap c d) \<and>
           (\<forall>d'. d' \<noteq> d \<longrightarrow> heap c' d' = heap c d')"
proof -
  let ?c1 = "update_def d (\<lambda>x. x\<lparr>d_ID := Some serviceId\<rparr>) c"
  have h1: "heap ?c1 d = (heap c d)\<lparr>d_ID := Some serviceId\<rparr>"
    and o1: "\<forall>d'. d' \<noteq> d \<longrightarrow> heap ?c1 d' = heap c d'"
    and s1: "definitions ?c1 = definitions c" "labels ?c1 = labels c" "deepClone ?c1 = deepClone c"
      "tags ?c1 = tags c" "trace ?c1 = trace c" "next_cell ?c1 = next_cell c"
      "next_addr ?c1 = next_addr c" "cells ?c1 = cells c"
    by (simp_all add: update_def_def)
  have raw1: "d_raw (heap ?c1 d) = RawVal raw" using raw h1 by simp
  have cf: "compiled_flat ?c1 a = compiled_flat c a" for a
  proof (cases "a = d")
    case True
    then show ?thesis by (simp add: compiled_flat_def h1)
  next
    case False
    with o1 have "heap ?c1 a = heap c a" by blast
    then show ?thesis by (simp only: compiled_flat_def)
  qed
  have args1: "\<forall>a. ADef a \<in> set (d_args (heap ?c1 d)) \<longrightarrow> compiled_flat ?c1 a"
    using args h1 cf by simp
  obtain c2 r2 where cr: "createResolver E d (d_raw (heap ?c1 d)) ?c1 = (c2, r2)"
    by (cases "createResolver E d (d_raw (heap ?c1 d)) ?c1")
  from comp cr obtain i where r2: "r2 = Inr i"
    by (cases r2) (auto simp: compile_def Let_def)
  obtain c3 r where w: "wrap d i c2 = (c3, r)"
    by (cases "wrap d i c2")
  from comp cr r2 w have c': "c' = update_def d (\<lambda>x. x\<lparr>d_resolve := Some r\<rparr>) c3"
    by (simp add: compile_def Let_def)
  from createResolver_effect [OF raw1 args1 cr [unfolded r2]] obtain es vs where
    f: "frame ?c1 c2" and fl: "flat i" and t: "trace c2 = trace ?c1 @ es"
    and k: "case raw of
               JFun f \<Rightarrow>
                 i = BoundUser f (d_context (heap ?c1 d)) vs \<and>
                 length vs = length (d_args (heap ?c1 d)) \<and>
                 (\<forall>a. count_list es (Invoked a) = count_list (d_args (heap ?c1 d)) (ADef a)) \<and>
                 (\<forall>j<length (d_args (heap ?c1 d)).
                    case d_args (heap ?c1 d) ! j of ADef a \<Rightarrow> (\<exists>v. vs ! j = AVal v)
                    | _ \<Rightarrow> vs ! j = d_args (heap ?c1 d) ! j)
             | _ \<Rightarrow> c2 = ?c1 \<and> es = [] \<and> i = (if isObject raw then ObjectThunk raw else Constant raw)"
    by blast
  have h2: "heap c2 = heap ?c1" and s2: "definitions c2 = definitions c" "labels c2 = labels c"
    "deepClone c2 = deepClone c" "tags c2 = tags c"
    using frame_fields [OF f] s1 by simp_all
  have sh: "d_shared (heap c2 d) = d_shared (heap c d)" using h2 h1 by simp
  have r: "r = Resolver d i (if d_shared (heap c d) then Some (next_cell c2) else None)"
    and h3: "heap c3 = heap c2" and s3: "definitions c3 = definitions c" "labels c3 = labels c"
      "deepClone c3 = deepClone c" "tags c3 = tags c" "trace c3 = trace c2" "next_addr c3 = next_addr c2"
    and fr: "d_shared (heap c d) \<longrightarrow> cells c3 (next_cell c2) = Fresh"
    using w sh s2 by (auto simp: wrap_def split: if_splits)
  have nc: "next_cell c2 = next_cell c"
  proof -
    from f have "c2 = ?c1\<lparr>cells := cells c2, next_addr := next_addr c2, trace := trace c2\<rparr>"
      by (simp add: frame_def)
    then have "next_cell c2 = next_cell (?c1\<lparr>cells := cells c2, next_addr := next_addr c2, trace := trace c2\<rparr>)"
      by simp
    then show ?thesis using s1 by simp
  qed
  have hd: "heap c' d = (heap c d)\<lparr>d_ID := Some serviceId, d_resolve := Some r\<rparr>"
    and ho: "\<forall>d'. d' \<noteq> d \<longrightarrow> heap c' d' = heap c d'"
    and s4: "definitions c' = definitions c" "labels c' = labels c" "deepClone c' = deepClone c"
      "tags c' = tags c" "trace c' = trace c @ es" "cells c' = cells c3" "next_addr c' = next_addr c2"
    using c' h3 h2 h1 o1 s3 t s1 by (simp_all add: update_def_def)
  have kk: "case raw of
               JFun f \<Rightarrow>
                 i = BoundUser f (d_context (heap c d)) vs \<and>
                 length vs = length (d_args (heap c d)) \<and>
                 (\<forall>a. count_list es (Invoked a) = count_list (d_args (heap c d)) (ADef a)) \<and>
                 (\<forall>j<length (d_args (heap c d)).
                    case d_args (heap c d) ! j of ADef a \<Rightarrow> (\<exists>v. vs ! j = AVal v)
                    | _ \<Rightarrow> vs ! j = d_args (heap c d) ! j)
             | _ \<Rightarrow> next_addr c' = next_addr c \<and> es = [] \<and>
                 i = (if isObject raw then ObjectThunk raw else Constant raw)"
  proof -
    have da: "d_args (heap ?c1 d) = d_args (heap c d)"
      and dc: "d_context (heap ?c1 d) = d_context (heap c d)"
      using h1 by simp_all
    note k' = k [unfolded da dc]
    show ?thesis
      using k' s4(7) s1(7) by (cases raw) simp_all
  qed
  show ?thesis
    using hd ho s4 r nc fr fl kk
    by (intro exI [of _ i] exI [of _ es] exI [of _ vs]) simp
qed


lemma tag_loop_frame:
  assumes "tag_loop service ts c = (c', r)"
  shows "heap c' = heap c \<and> definitions c' = definitions c \<and> cells c' = cells c \<and>
         deepClone c' = deepClone c \<and> labels c' = labels c \<and> trace c' = trace c"
  using assms
proof (induction ts arbitrary: c)
  case Nil
  then show ?case by simp
next
  case (Cons t ts)
  show ?case
  proof (cases "normalizeTag t (next_addr c)")
    case (Inl e)
    with Cons.prems show ?thesis by simp
  next
    case (Inr pn)
    obtain p n where pn: "pn = (p, n)" by (cases pn)
    with Cons.prems Inr have
      "tag_loop service ts (c\<lparr>tags := tag_push service p (tags c), next_addr := n\<rparr>) = (c', r)"
      by simp
    from Cons.IH [OF this] show ?thesis by simp
  qed
qed

lemma distinct_Set_add: "distinct xs \<Longrightarrow> distinct (Set_add x xs)"
  by (simp add: Set_add_def)


lemma label_effect:
  "heap (label d name cb c) = (heap c)(d := (heap c d)\<lparr>d_labels := Set_add name (d_labels (heap c d))\<rparr>) \<and>
   definitions (label d name cb c) = definitions c \<and> cells (label d name cb c) = cells c \<and>
   deepClone (label d name cb c) = deepClone c \<and> trace (label d name cb c) = trace c \<and>
   next_addr (label d name cb c) = next_addr c \<and>
   labels (label d name cb c) = (if isFunction cb then (labels c)(name \<mapsto> cb) else labels c)"
  by (simp add: label_def update_def_def defineLabel_def Let_def)

lemma configurator_call_effect:
  assumes "configurator_call E cf (SDef d) c = (c', r)"
  shows "definitions c' = definitions c \<and> cells c' = cells c \<and> deepClone c' = deepClone c \<and>
         d_resolve (heap c' d) = d_resolve (heap c d) \<and> d_shared (heap c' d) = d_shared (heap c d) \<and>
         (distinct (d_labels (heap c d)) \<longrightarrow> distinct (d_labels (heap c' d)))"
proof (cases cf)
  case (Label_configurator name cb)
  with assms have "c' = label d name cb c" by (simp add: configurator_call_def)
  then show ?thesis by (simp add: label_effect distinct_Set_add)
next
  case (Tag_configurator ts)
  with assms have "tag_loop (ID_value c d) ts c = (c', r)"
    by (simp add: configurator_call_def tags_of_definition_def tag_def)
  from tag_loop_frame [OF this] show ?thesis by simp
next
  case (User_configurator f)
  with assms have "c' = log [Called f (AVal JUndefined) [ADef d, AContainer]] c"
    by (auto simp: configurator_call_def split: sum.splits)
  then show ?thesis by (simp add: log_def)
qed

lemma over_effect:
  assumes "over E cfs (SDef d) c = (c', r)"
  shows "definitions c' = definitions c \<and> cells c' = cells c \<and> deepClone c' = deepClone c \<and>
         d_resolve (heap c' d) = d_resolve (heap c d) \<and> d_shared (heap c' d) = d_shared (heap c d) \<and>
         (distinct (d_labels (heap c d)) \<longrightarrow> distinct (d_labels (heap c' d)))"
  using assms
proof (induction cfs arbitrary: c)
  case Nil
  then show ?case by simp
next
  case (Cons cf cfs)
  obtain c1 r1 where one: "configurator_call E cf (SDef d) c = (c1, r1)"
    by (cases "configurator_call E cf (SDef d) c")
  note e1 = configurator_call_effect [OF one]
  show ?case
  proof (cases r1)
    case (Inl e)
    with Cons.prems one have "c' = c1" by simp
    with e1 show ?thesis by simp
  next
    case (Inr u)
    with Cons.prems one have "over E cfs (SDef d) c1 = (c', r)" by simp
    from Cons.IH [OF this] e1 show ?thesis by simp
  qed
qed

lemma create_value:
  "create (SVal raw) (AVal JUndefined) (AVal JUndefined) c =
     (c\<lparr>heap := (heap c)(next_def c :=
          \<lparr>d_shared = False, d_labels = [], d_context = AContainer, d_args = [AContainer],
           d_raw = RawVal raw, d_ID = None, d_resolve = None\<rparr>),
        next_def := Suc (next_def c)\<rparr>, next_def c)"
  by (simp add: create_def new_Definition_def configure_def Let_def)

lemma setRaw_new:
  assumes raw: "d_raw (heap c d) = RawVal raw"
    and args: "\<forall>a. ADef a \<in> set (d_args (heap c d)) \<longrightarrow> compiled_flat c a"
    and lab: "distinct (d_labels (heap c d))"
    and set: "setRaw E serviceId (SDef d) cfs c = (c', Inr ())"
  shows "\<exists>i. definitions c' serviceId = Some (SDef d) \<and>
           d_resolve (heap c' d) =
             Some (Resolver d i (if d_shared (heap c d) then Some (next_cell c) else None)) \<and>
           flat i \<and> (isObject raw \<and> \<not> isFunction raw \<longrightarrow> i = ObjectThunk raw) \<and>
           (d_shared (heap c d) \<longrightarrow> cells c' (next_cell c) = Fresh) \<and>
           d_shared (heap c' d) = d_shared (heap c d) \<and>
           deepClone c' = deepClone c \<and> distinct (d_labels (heap c' d)) \<and>
           (cfs = [] \<longrightarrow> d_labels (heap c' d) = d_labels (heap c d) \<and>
              (\<not> isFunction raw \<longrightarrow> next_addr c' = next_addr c))"
proof -
  obtain c1 r1 where comp: "compile E d serviceId c = (c1, r1)"
    by (cases "compile E d serviceId c")
  from set comp have r1: "r1 = Inr ()"
    by (cases r1) (auto simp: setRaw_def js_not_def compile_call_def)
  let ?c2 = "c1\<lparr>definitions := (definitions c1)(serviceId \<mapsto> SDef d)\<rparr>"
  let ?c3 = "if \<not> isReserved ?c2 serviceId then ?c2\<lparr>accessors := Set_add serviceId (accessors ?c2)\<rparr> else ?c2"
  from set comp r1 have fin: "(if cfs \<noteq> [] then over E cfs (SDef d) ?c3 else (?c3, Inr ())) = (c', Inr ())"
    by (simp add: setRaw_def js_not_def compile_call_def Let_def)
  from compile_effect [OF raw args comp [unfolded r1]] obtain i es vs where
    res: "d_resolve (heap c1 d) =
             Some (Resolver d i (if d_shared (heap c d) then Some (next_cell c) else None))"
    and fl: "flat i"
    and k: "case raw of
               JFun f \<Rightarrow>
                 i = BoundUser f (d_context (heap c d)) vs \<and>
                 length vs = length (d_args (heap c d)) \<and>
                 (\<forall>a. count_list es (Invoked a) = count_list (d_args (heap c d)) (ADef a)) \<and>
                 (\<forall>j<length (d_args (heap c d)).
                    case d_args (heap c d) ! j of ADef a \<Rightarrow> (\<exists>v. vs ! j = AVal v)
                    | _ \<Rightarrow> vs ! j = d_args (heap c d) ! j)
             | _ \<Rightarrow> next_addr c1 = next_addr c \<and> es = [] \<and>
                 i = (if isObject raw then ObjectThunk raw else Constant raw)"
    and fr: "d_shared (heap c d) \<longrightarrow> cells c1 (next_cell c) = Fresh"
    and s: "deepClone c1 = deepClone c" "d_labels (heap c1 d) = d_labels (heap c d)"
      "d_shared (heap c1 d) = d_shared (heap c d)"
    by blast
  have obj: "isObject raw \<and> \<not> isFunction raw \<longrightarrow> i = ObjectThunk raw"
    and na: "\<not> isFunction raw \<longrightarrow> next_addr c1 = next_addr c"
    using k by (cases raw; simp)+
  have c3: "definitions ?c3 serviceId = Some (SDef d)" "heap ?c3 = heap c1" "cells ?c3 = cells c1"
    "deepClone ?c3 = deepClone c1" "next_addr ?c3 = next_addr c1"
    by simp_all
  show ?thesis
  proof (cases "cfs = []")
    case True
    with fin have "c' = ?c3" by simp
    with c3 res fl obj fr s na lab show ?thesis
      by (intro exI [of _ i]) simp
  next
    case False
    with fin have "over E cfs (SDef d) ?c3 = (c', Inr ())" by simp
    from over_effect [OF this] c3 res fl obj fr s lab False show ?thesis
      by (intro exI [of _ i]) simp
  qed
qed



lemma set_service_registers:
  assumes "set_service E serviceId (SVal raw) [] c = (c', r)"
  shows "r = Inr () \<and> definitions c' serviceId = Some (SDef (next_def c)) \<and>
         (\<exists>i. d_resolve (heap c' (next_def c)) = Some (Resolver (next_def c) i None) \<and>
            flat i \<and> (isObject raw \<and> \<not> isFunction raw \<longrightarrow> i = ObjectThunk raw)) \<and>
         \<not> d_shared (heap c' (next_def c)) \<and> d_labels (heap c' (next_def c)) = [] \<and>
         deepClone c' = deepClone c \<and> (\<not> isFunction raw \<longrightarrow> next_addr c' = next_addr c)"
proof -
  let ?d = "next_def c"
  let ?c1 = "c\<lparr>heap := (heap c)(?d :=
          \<lparr>d_shared = False, d_labels = [], d_context = AContainer, d_args = [AContainer],
           d_raw = RawVal raw, d_ID = None, d_resolve = None\<rparr>),
        next_def := Suc ?d\<rparr>"
  from assms have set: "setRaw E serviceId (SDef ?d) [] ?c1 = (c', r)"
    by (simp add: set_service_def create_value)
  have raw: "d_raw (heap ?c1 ?d) = RawVal raw"
    and args: "\<forall>a. ADef a \<in> set (d_args (heap ?c1 ?d)) \<longrightarrow> compiled_flat ?c1 a"
    and lab: "distinct (d_labels (heap ?c1 ?d))"
    and sh: "\<not> d_shared (heap ?c1 ?d)" and l0: "d_labels (heap ?c1 ?d) = []"
    and dc: "deepClone ?c1 = deepClone c" "next_addr ?c1 = next_addr c"
    by simp_all
  have r: "r = Inr ()"
    using set
    by (cases raw)
       (auto simp: setRaw_def js_not_def compile_call_def compile_def createResolver_def wrap_def
          bind_args_def update_def_def resolve_arg_def Let_def split: if_splits)
  from setRaw_new [OF raw args lab set [unfolded r]] sh l0 dc r show ?thesis
    by auto
qed

lemma addLabel_loop_effect:
  "addLabel_loop E (SDef d) ls c =
     (c\<lparr>heap := (heap c)(d := (heap c d)\<lparr>d_labels := foldl (\<lambda>xs l. Set_add l xs) (d_labels (heap c d)) ls\<rparr>)\<rparr>,
      Inr ())"
proof (induction ls arbitrary: c)
  case Nil
  then show ?case by simp
next
  case (Cons l ls)
  let ?c1 = "c\<lparr>heap := (heap c)(d := (heap c d)\<lparr>d_labels := Set_add l (d_labels (heap c d))\<rparr>)\<rparr>"
  have "addLabel_loop E (SDef d) (l # ls) c = addLabel_loop E (SDef d) ls ?c1"
    by (simp add: label_def update_def_def)
  also have "\<dots> = (?c1\<lparr>heap := (heap ?c1)(d := (heap ?c1 d)\<lparr>d_labels :=
        foldl (\<lambda>xs l. Set_add l xs) (d_labels (heap ?c1 d)) ls\<rparr>)\<rparr>, Inr ())"
    by (rule Cons.IH)
  also have "\<dots> = (c\<lparr>heap := (heap c)(d := (heap c d)\<lparr>d_labels :=
        foldl (\<lambda>xs l. Set_add l xs) (d_labels (heap c d)) (l # ls)\<rparr>)\<rparr>, Inr ())"
    by simp
  finally show ?case .
qed









lemmas run_defs =
  setShared_def set_service_def setRaw_def create_def new_Definition_def configure_def
  compile_call_def compile_def createResolver_def bind_args_def resolve_arg_def wrap_def
  update_def_def js_not_def isReserved_def Set_add_def addLabel_def getDefinition_def label_def
  defineLabel_def get_def wrapped_def remember_def getLabel_def ID_value_def log_def
  empty_pimple_def blank_def events_def hidden_def call_getDefinition_def call_get_def Let_def




section \<open>Labels\<close>





section \<open>Copies of services that are not shared\<close>

lemma cloneDeep_copies:
  "n \<le> snd (cloneDeep v n) \<and>
   (isObject v \<longrightarrow> address (fst (cloneDeep v n)) = Some n \<and> n < snd (cloneDeep v n)) \<and>
   (\<not> uncloneable v \<longrightarrow> erase (fst (cloneDeep v n)) = erase v) \<and>
   (uncloneable v \<longrightarrow> erase (fst (cloneDeep v n)) = JObj 0 [])"
  "map (\<lambda>kv. (fst kv, erase (snd kv))) (fst (cloneDeep_props fs n)) =
     map (\<lambda>kv. (fst kv, erase (snd kv))) fs \<and> n \<le> snd (cloneDeep_props fs n)"
  "map erase (fst (cloneDeep_elems vs n)) = map erase vs \<and> n \<le> snd (cloneDeep_elems vs n)"
proof (induction v n and fs n and vs n rule: cloneDeep_cloneDeep_props_cloneDeep_elems.induct)
  case (1 a fs n)
  then show ?case by (auto split: prod.splits)
next
  case (2 a vs n)
  then show ?case by (auto split: prod.splits)
next
  case (11 kv fs n)
  show ?case
  proof (cases "uncloneable (snd kv)")
    case True
    with 11(2) [of "snd kv" n] show ?thesis
      by (auto split: prod.splits)
  next
    case False
    obtain v' n' where c: "cloneDeep (snd kv) n = (v', n')" by (cases "cloneDeep (snd kv) n")
    from 11(1) [OF False] c False have 1: "erase v' = erase (snd kv)" "n \<le> n'"
      by auto
    from 11(2) [of v' n'] c False have
      2: "map (\<lambda>kv. (fst kv, erase (snd kv))) (fst (cloneDeep_props fs n')) =
           map (\<lambda>kv. (fst kv, erase (snd kv))) fs" "n' \<le> snd (cloneDeep_props fs n')"
      by auto
    show ?thesis
      using False c 1 2 by (auto split: prod.splits)
  qed
next
  case (13 v vs n)
  show ?case
  proof (cases "uncloneable v")
    case True
    with 13(2) [of v n] show ?thesis
      by (auto split: prod.splits)
  next
    case False
    obtain v' n' where c: "cloneDeep v n = (v', n')" by (cases "cloneDeep v n")
    from 13(1) [OF False] c False have 1: "erase v' = erase v" "n \<le> n'"
      by auto
    from 13(2) [of v' n'] c False have
      2: "map erase (fst (cloneDeep_elems vs n')) = map erase vs" "n' \<le> snd (cloneDeep_elems vs n')"
      by auto
    show ?thesis
      using False c 1 2 by (auto split: prod.splits)
  qed
qed auto

lemma apply_labels_address:
  assumes "apply_labels E d ls inst c = (c', Inr v)"
  shows "address v = address inst"
  using assms
proof (induction ls arbitrary: inst c)
  case Nil
  then show ?case by simp
next
  case (Cons l ls)
  from Cons.prems obtain f where cb: "getLabel c l = Inr (JFun f)"
    by (auto split: sum.splits jsval.splits)
  let ?as = "[AVal inst, AContainer, AVal (ID_value c d)]"
  let ?inst = "mutated inst (touch E f (ADef d) ?as (trace c) inst)"
  from Cons.prems cb have
    "apply_labels E d ls ?inst (log [Labelled d l, Called f (ADef d) ?as] c) = (c', Inr v)"
    by (auto simp: Let_def split: sum.splits)
  from Cons.IH [OF this] have "address v = address ?inst" .
  moreover have "address (mutated x y) = address x" for x y
    by (cases "(x, y)" rule: mutated.cases) simp_all
  ultimately show ?case by simp
qed

lemma get_copy:
  assumes "definitions c serviceId = Some (SDef d)"
    and "d_resolve (heap c d) = Some (Resolver d (ObjectThunk raw) None)"
    and "\<not> d_shared (heap c d)" and "deepClone c"
    and "isObject raw"
    and "\<not> hidden c ''get''" and "\<not> hidden c ''getDefinition''"
    and "call_get E serviceId c = (c', r)"
  shows "frame c c' \<and> next_addr c < next_addr c' \<and>
         (\<forall>v. r = Inr v \<longrightarrow> address v = Some (next_addr c)) \<and>
         (d_labels (heap c d) = [] \<longrightarrow> r = Inr (fst (cloneDeep raw (next_addr c))))"
proof -
  let ?c0 = "log [Invoked d, Ran d] c"
  let ?v = "fst (cloneDeep raw (next_addr c))"
  let ?n = "snd (cloneDeep raw (next_addr c))"
  let ?c1 = "?c0\<lparr>next_addr := ?n\<rparr>"
  have run: "run_inner E d (ObjectThunk raw) ?c0 = (?c1, Inr ?v)"
    using assms(3,4) by (simp add: log_def split: prod.splits)
  from assms(1,2,6,7,8) have "wrapped E d (run_inner E d (ObjectThunk raw) ?c0) = (c', r)"
    by (simp add: call_get_def get_def call_getDefinition_def getDefinition_def)
  with run have lab: "apply_labels E d (d_labels (heap c d)) ?v ?c1 = (c', r)"
    by (simp add: wrapped_def log_def)
  from apply_labels_effect [OF lab] obtain es where es: "c' = log es ?c1"
    by blast
  have f: "frame c c'"
    using es by (simp add: frame_def log_def)
  from cloneDeep_copies(1) [of "next_addr c" raw] assms(5) have
    cp: "address ?v = Some (next_addr c)" "next_addr c < ?n"
    by simp_all
  have na: "next_addr c < next_addr c'"
    using es cp(2) by (simp add: log_def)
  have ad: "\<forall>v. r = Inr v \<longrightarrow> address v = Some (next_addr c)"
    using lab cp(1) apply_labels_address by fastforce
  have nl: "d_labels (heap c d) = [] \<longrightarrow> r = Inr ?v"
    using lab by auto
  from f na ad nl show ?thesis by blast
qed

lemma get_times_copies:
  assumes "definitions c serviceId = Some (SDef d)"
    and "d_resolve (heap c d) = Some (Resolver d (ObjectThunk raw) None)"
    and "\<not> d_shared (heap c d)" and "deepClone c"
    and "isObject raw"
    and "\<not> hidden c ''get''" and "\<not> hidden c ''getDefinition''"
    and "get_times E serviceId n c = (c', rs)"
  shows "length rs = n \<and>
         (\<forall>i<n. \<forall>v. rs ! i = Inr v \<longrightarrow>
            (\<exists>a. address v = Some a \<and> next_addr c \<le> a \<and>
               (\<forall>j<i. \<forall>w. rs ! j = Inr w \<longrightarrow> (\<exists>b. address w = Some b \<and> b < a)))) \<and>
         (d_labels (heap c d) = [] \<longrightarrow>
            (\<forall>i<n. \<exists>m. rs ! i = Inr (fst (cloneDeep raw m))))"
  using assms
proof (induction n arbitrary: c c' rs)
  case 0
  then show ?case by simp
next
  case (Suc n)
  obtain c1 r where g: "call_get E serviceId c = (c1, r)"
    by (cases "call_get E serviceId c")
  obtain c2 rs' where rest: "get_times E serviceId n c1 = (c2, rs')"
    by (cases "get_times E serviceId n c1")
  from Suc.prems(8) g rest have rs: "rs = r # rs'" by simp
  from get_copy [OF Suc.prems(1-7) g] have
    f: "frame c c1" and lt: "next_addr c < next_addr c1"
    and ad: "\<forall>v. r = Inr v \<longrightarrow> address v = Some (next_addr c)"
    and nl: "d_labels (heap c d) = [] \<longrightarrow> r = Inr (fst (cloneDeep raw (next_addr c)))"
    by simp_all
  have inv: "definitions c1 serviceId = Some (SDef d)"
    "d_resolve (heap c1 d) = Some (Resolver d (ObjectThunk raw) None)"
    "\<not> d_shared (heap c1 d)" "deepClone c1"
    and hid: "\<not> hidden c1 ''get''" "\<not> hidden c1 ''getDefinition''"
    and lab: "d_labels (heap c1 d) = d_labels (heap c d)"
    using frame_fields [OF f] hidden_frame [OF f] Suc.prems(1-7) by simp_all
  from Suc.IH [OF inv Suc.prems(5) hid rest] have
    len: "length rs' = n"
    and ih: "\<forall>i<n. \<forall>v. rs' ! i = Inr v \<longrightarrow>
            (\<exists>a. address v = Some a \<and> next_addr c1 \<le> a \<and>
               (\<forall>j<i. \<forall>w. rs' ! j = Inr w \<longrightarrow> (\<exists>b. address w = Some b \<and> b < a)))"
    and ihl: "d_labels (heap c1 d) = [] \<longrightarrow> (\<forall>i<n. \<exists>m. rs' ! i = Inr (fst (cloneDeep raw m)))"
    by simp_all
  have A: "\<exists>a. address v = Some a \<and> next_addr c \<le> a \<and>
               (\<forall>j<i. \<forall>w. rs ! j = Inr w \<longrightarrow> (\<exists>b. address w = Some b \<and> b < a))"
    if "i < Suc n" and "rs ! i = Inr v" for i v
  proof (cases i)
    case 0
    with that rs ad show ?thesis by simp
  next
    case (Suc i')
    with that rs have i': "i' < n" "rs' ! i' = Inr v" by simp_all
    with ih obtain a where
      a: "address v = Some a" "next_addr c1 \<le> a"
        "\<forall>j<i'. \<forall>w. rs' ! j = Inr w \<longrightarrow> (\<exists>b. address w = Some b \<and> b < a)"
      by blast
    have "\<exists>b. address w = Some b \<and> b < a" if "j < i" "rs ! j = Inr w" for j w
    proof (cases j)
      case 0
      with that rs ad lt a(2) show ?thesis by auto
    next
      case (Suc j')
      with that \<open>i = Suc i'\<close> rs have "j' < i'" "rs' ! j' = Inr w" by simp_all
      with a(3) show ?thesis by blast
    qed
    with a(1,2) lt show ?thesis by auto
  qed
  have B: "\<exists>m. rs ! i = Inr (fst (cloneDeep raw m))" if "d_labels (heap c d) = []" "i < Suc n" for i
  proof (cases i)
    case 0
    with that nl rs show ?thesis by auto
  next
    case (Suc i')
    with that ihl lab rs show ?thesis by auto
  qed
  from A B len rs show ?case by auto
qed

text \<open>
  Claim C4, as amended. A value that is an object and no function, allocated before, is
  registered with \<open>set\<close> in a container that clones deeply, labels are added to the
  service, and \<open>get\<close> and \<open>getDefinition\<close> are not hidden. Then every value that a \<open>get\<close>
  of any number of calls in a row returns is not identical to the original and not
  identical to the value that any earlier call returned. When no label is added and the
  original is a plain object or an array, every call returns a value, which is deeply
  equal to the original.
\<close>

theorem fresh_copies:
  assumes "set_service E serviceId (SVal raw) [] c0 = (c1, r1)"
    and "isObject raw" and "\<not> isFunction raw" and "deepClone c0"
    and "\<forall>a. address raw = Some a \<longrightarrow> a < next_addr c0"
    and "\<not> hidden c1 ''get''" and "\<not> hidden c1 ''getDefinition''"
    and "addLabel E serviceId ls c1 = (c2, r2)"
    and "get_times E serviceId n c2 = (c3, rs)"
  shows "r1 = Inr () \<and> r2 = Inr () \<and> length rs = n \<and>
         (\<forall>i<n. \<forall>v. rs ! i = Inr v \<longrightarrow>
            \<not> identical v raw \<and> (\<forall>j<i. \<forall>w. rs ! j = Inr w \<longrightarrow> \<not> identical v w)) \<and>
         (ls = [] \<and> (isPlainObject raw \<or> isArray raw) \<longrightarrow>
            (\<forall>i<n. \<exists>v. rs ! i = Inr v \<and> deep_equal v raw))"
proof -
  let ?d = "next_def c0"
  from set_service_registers [OF assms(1)] assms(2,3,4) have r1: "r1 = Inr ()"
    and reg: "definitions c1 serviceId = Some (SDef ?d)"
    and res: "d_resolve (heap c1 ?d) = Some (Resolver ?d (ObjectThunk raw) None)"
    and ns: "\<not> d_shared (heap c1 ?d)" and nl: "d_labels (heap c1 ?d) = []"
    and dc: "deepClone c1" and na: "next_addr c1 = next_addr c0"
    by auto
  let ?L = "foldl (\<lambda>xs l. Set_add l xs) (d_labels (heap c1 ?d)) ls"
  from assms(8) reg assms(7) have r2: "r2 = Inr ()"
    and c2: "c2 = c1\<lparr>heap := (heap c1)(?d := (heap c1 ?d)\<lparr>d_labels := ?L\<rparr>)\<rparr>"
    by (simp_all add: addLabel_def call_getDefinition_def getDefinition_def addLabel_loop_effect)
  have reg2: "definitions c2 serviceId = Some (SDef ?d)"
    and res2: "d_resolve (heap c2 ?d) = Some (Resolver ?d (ObjectThunk raw) None)"
    and ns2: "\<not> d_shared (heap c2 ?d)" and dc2: "deepClone c2"
    and hid2: "\<not> hidden c2 ''get''" "\<not> hidden c2 ''getDefinition''"
    and na2: "next_addr c2 = next_addr c0"
    and nl2: "ls = [] \<longrightarrow> d_labels (heap c2 ?d) = []"
    using c2 reg res ns dc na nl assms(6,7) by (simp_all add: hidden_def)
  from get_times_copies [OF reg2 res2 ns2 dc2 assms(2) hid2 assms(9)] have len: "length rs = n"
    and new: "\<forall>i<n. \<forall>v. rs ! i = Inr v \<longrightarrow>
            (\<exists>a. address v = Some a \<and> next_addr c2 \<le> a \<and>
               (\<forall>j<i. \<forall>w. rs ! j = Inr w \<longrightarrow> (\<exists>b. address w = Some b \<and> b < a)))"
    and cp: "d_labels (heap c2 ?d) = [] \<longrightarrow> (\<forall>i<n. \<exists>m. rs ! i = Inr (fst (cloneDeep raw m)))"
    by simp_all
  have A: "\<not> identical v raw \<and> (\<forall>j<i. \<forall>w. rs ! j = Inr w \<longrightarrow> \<not> identical v w)"
    if "i < n" "rs ! i = Inr v" for i v
  proof -
    from new that obtain a where
      a: "address v = Some a" "next_addr c2 \<le> a"
        "\<forall>j<i. \<forall>w. rs ! j = Inr w \<longrightarrow> (\<exists>b. address w = Some b \<and> b < a)"
      by blast
    have "address raw \<noteq> Some a"
      using a(2) assms(5) na2 by auto
    then have "\<not> identical v raw"
      using a(1) by (simp add: identical_def)
    moreover have "\<not> identical v w" if "j < i" "rs ! j = Inr w" for j w
      using a(1,3) that by (fastforce simp: identical_def)
    ultimately show ?thesis by blast
  qed
  have B: "\<exists>v. rs ! i = Inr v \<and> deep_equal v raw"
    if "ls = []" "isPlainObject raw \<or> isArray raw" "i < n" for i
  proof -
    from cp nl2 that obtain m where m: "rs ! i = Inr (fst (cloneDeep raw m))"
      by blast
    have "\<not> uncloneable raw"
      using that(2) by (cases raw) simp_all
    then show ?thesis
      using m cloneDeep_copies(1) [of m raw] by (auto simp: deep_equal_def)
  qed
  from r1 r2 len A B show ?thesis by blast
qed

text \<open>
  Claim C4 as stated fails in four ways. The service \<open>array\<close> is the empty array, not
  shared, in a container that clones deeply. With the label \<open>pushCount\<close>, whose callback
  changes the instance, its \<open>get\<close> returns an array that holds 1; with a label that has
  no callback, its \<open>get\<close> throws. A service that is an object lodash does not clone comes
  back as an empty object. And the \<open>get\<close> of a service registered under the name \<open>get\<close>
  exhausts the stack.
\<close>

theorem labelled_copy_differs:
  "snd (call_get pusher ''array'' (fst (addLabel pusher ''array'' [''pushCount''] plain_array))) =
     Inr (JArr 1 [JNum 1]) \<and>
   \<not> deep_equal (JArr 1 [JNum 1]) (JArr 0 []) \<and>
   d_raw (heap plain_array 0) = RawVal (JArr 0 []) \<and>
   \<not> d_shared (heap plain_array 0) \<and> deepClone plain_array \<and>
   definitions plain_array ''array'' = Some (SDef 0) \<and>
   snd (call_get pusher ''array'' (fst (addLabel pusher ''array'' [''nolabel''] plain_array))) =
     Inl (LabelNotDefined ''nolabel'') \<and>
   snd (call_get quiet ''error''
     (fst (set_service quiet ''error'' (SVal (JUncloneable 0)) [] (empty_pimple True 1)))) =
     Inr (JObj 1 []) \<and>
   \<not> deep_equal (JObj 1 []) (JUncloneable 0) \<and>
   snd (call_get quiet ''get''
     (fst (set_service quiet ''get'' (SVal (JArr 0 [])) [] (empty_pimple True 1)))) =
     Inl RangeError"
  by (simp add: plain_array_def pusher_def quiet_def run_defs deep_equal_def)

theorem fresh_copies_witness:
  "snd (get_times quiet ''array'' 2 (fst (set_service quiet ''array'' (SVal (JArr 0 [])) [] (empty_pimple True 1)))) =
     [Inr (JArr 1 []), Inr (JArr 2 [])] \<and>
   deep_equal (JArr 1 []) (JArr 0 []) \<and> deep_equal (JArr 2 []) (JArr 0 []) \<and>
   \<not> identical (JArr 1 []) (JArr 0 []) \<and> \<not> identical (JArr 2 []) (JArr 0 []) \<and>
   \<not> identical (JArr 2 []) (JArr 1 []) \<and>
   length (snd (get_times quiet ''array'' 2
     (fst (set_service quiet ''array'' (SVal (JArr 0 [])) [] (empty_pimple True 1))))) = 2"
proof -
  let ?c1 = "fst (set_service quiet ''array'' (SVal (JArr 0 [])) [] (empty_pimple True 1))"
  have h1: "set_service quiet ''array'' (SVal (JArr 0 [])) [] (empty_pimple True 1) =
      (?c1, snd (set_service quiet ''array'' (SVal (JArr 0 [])) [] (empty_pimple True 1)))"
    by simp
  have h2: "isObject (JArr 0 [])" and h3: "\<not> isFunction (JArr 0 [])"
    and h4: "deepClone (empty_pimple True 1)"
    and h5: "\<forall>a. address (JArr 0 []) = Some a \<longrightarrow> a < next_addr (empty_pimple True 1)"
    by (simp_all add: empty_pimple_def)
  have h6: "\<not> hidden ?c1 ''get''" and h7: "\<not> hidden ?c1 ''getDefinition''"
    by (simp_all add: quiet_def run_defs)
  have h8: "addLabel quiet ''array'' [] ?c1 = (?c1, Inr ())"
    by (simp add: quiet_def run_defs)
  have h9: "get_times quiet ''array'' 2 ?c1 =
      (fst (get_times quiet ''array'' 2 ?c1), snd (get_times quiet ''array'' 2 ?c1))"
    by simp
  have ev: "snd (get_times quiet ''array'' 2 ?c1) = [Inr (JArr 1 []), Inr (JArr 2 [])]"
    by (simp add: quiet_def run_defs numeral_2_eq_2)
  show ?thesis
    using fresh_copies [OF h1 h2 h3 h4 h5 h6 h7 h8 h9] ev
    by (simp add: deep_equal_def identical_def)
qed

section \<open>Arguments of a factory\<close>








section \<open>Services that are not defined\<close>

lemma wrapped_frame:
  assumes "frame c (fst r)"
  shows "frame c (fst (wrapped E d r))"
proof (cases r)
  case (Pair c1 r1)
  show ?thesis
  proof (cases r1)
    case (Inl e)
    with Pair assms show ?thesis by (simp add: wrapped_def)
  next
    case (Inr inst)
    obtain c2 r2 where a: "apply_labels E d (d_labels (heap c1 d)) inst c1 = (c2, r2)"
      by (cases "apply_labels E d (d_labels (heap c1 d)) inst c1")
    from apply_labels_effect [OF a] obtain es where "c2 = log es c1" by blast
    then have "frame c1 c2" by (simp add: frame_log)
    with assms Pair have "frame c c2" using frame_trans by fastforce
    with Pair Inr a show ?thesis by (simp add: wrapped_def)
  qed
qed

lemma remember_frame:
  assumes "frame c (fst r)"
  shows "frame c (fst (remember k r))"
proof (cases r)
  case (Pair c1 r1)
  have "frame c1 (fst (remember k (c1, r1)))"
    by (cases r1) (simp_all add: remember_def frame_def)
  with assms Pair show ?thesis using frame_trans by fastforce
qed

lemma invoke_frame:
  "frame c (fst (invoke E r c))"
  "frame c (fst (run_inner E d i c))"
proof (induction E r c and E d i c rule: invoke_run_inner.induct)
  case (1 E d i k c)
  show ?case
  proof (cases k)
    case None
    have "frame c (log [Invoked d, Ran d] c)" by (rule frame_log)
    with 1(1) [OF None] have "frame c (fst (run_inner E d i (log [Invoked d, Ran d] c)))"
      using frame_trans by blast
    then show ?thesis using None by (simp add: wrapped_frame)
  next
    case (Some k')
    show ?thesis
    proof (cases "cells c k'")
      case Fresh
      let ?c0 = "log [Invoked d, Ran d] (c\<lparr>cells := (cells c)(k' := Called_once JUndefined)\<rparr>)"
      have "frame c ?c0" by (simp add: frame_def log_def)
      with 1(2) [OF Some Fresh] have "frame c (fst (run_inner E d i ?c0))"
        using frame_trans by blast
      then show ?thesis using Some Fresh by (simp add: wrapped_frame remember_frame)
    next
      case (Called_once v)
      with Some show ?thesis by (simp add: frame_log)
    qed
  qed
next
  case (2 E d f ctx as c)
  then show ?case by (simp add: frame_log)
next
  case (3 E d r ctx as c)
  then show ?case by simp
next
  case (4 E d v c)
  then show ?case by (auto simp: frame_def split: prod.splits)
next
  case (5 E d v c)
  then show ?case by (simp add: frame_refl)
qed


lemma arguments_frame: "frame c (fst (arguments E as c))"
proof (induction as arbitrary: c)
  case Nil
  then show ?case by (simp add: frame_refl)
next
  case (Cons x as)
  obtain c1 r1 where ra: "resolve_arg E x c = (c1, r1)"
    by (cases "resolve_arg E x c")
  have f1: "frame c c1"
  proof (cases x)
    case (ADef a)
    show ?thesis
    proof (cases "d_resolve (heap c a)")
      case None
      with ra ADef show ?thesis by (simp add: resolve_arg_def frame_refl)
    next
      case (Some r)
      with ra ADef have "c1 = fst (invoke E r c)"
        by (auto simp: resolve_arg_def split: prod.splits sum.splits)
      then show ?thesis by (simp add: invoke_frame)
    qed
  qed (use ra in \<open>auto simp: resolve_arg_def frame_refl\<close>)
  show ?case
  proof (cases r1)
    case (Inl e)
    with ra f1 show ?thesis by simp
  next
    case (Inr v)
    have "frame c1 (fst (arguments E as c1))" by (rule Cons.IH)
    with f1 have "frame c (fst (arguments E as c1))" using frame_trans by blast
    with ra Inr show ?thesis by (auto split: prod.splits sum.splits)
  qed
qed

lemma compile_definitions: "definitions (fst (compile E d serviceId c)) = definitions c"
proof -
  let ?c1 = "update_def d (\<lambda>x. x\<lparr>d_ID := Some serviceId\<rparr>) c"
  have f: "frame ?c1 (fst (createResolver E d x ?c1))" for x
    using arguments_frame [of ?c1 E "d_args (heap ?c1 d)"]
    by (auto simp: createResolver_def bind_args_def frame_refl
          split: rawspec.splits jsval.splits prod.splits sum.splits)
  have "definitions (fst (createResolver E d (d_raw (heap ?c1 d)) ?c1)) = definitions c"
    using frame_fields(2) [OF f] by (simp add: update_def_def)
  then show ?thesis
    by (auto simp: compile_def Let_def wrap_def update_def_def split: prod.splits sum.splits)
qed

lemma call_method_definitions: "definitions (fst (call_method E v m as c)) = definitions c"
  by (simp add: call_method_def log_def split: jsval.splits)

lemma call_method_definitionsD:
  "call_method E v m as c = (c', r) \<Longrightarrow> definitions c' = definitions c"
  using call_method_definitions [of E v m as c] by simp

lemma compile_definitionsD:
  "compile E d serviceId c = (c', r) \<Longrightarrow> definitions c' = definitions c"
  using compile_definitions [of E d serviceId c] by simp

lemma tag_loop_definitions: "definitions (fst (tag_loop service ts c)) = definitions c"
  using tag_loop_frame [of service ts c] by (cases "tag_loop service ts c") simp

lemma configurator_call_definitions:
  "definitions (fst (configurator_call E cf def c)) = definitions c"
proof (cases cf)
  case (Label_configurator name cb)
  then show ?thesis
    by (cases def)
       (auto simp: configurator_call_def label_effect split: prod.splits sum.splits
          dest: call_method_definitionsD)
next
  case (Tag_configurator ts)
  then show ?thesis
    using tag_loop_definitions
    by (cases def)
       (auto simp: configurator_call_def tags_of_definition_def tag_def split: prod.splits sum.splits
          dest: call_method_definitionsD)
next
  case (User_configurator f)
  then show ?thesis
    by (auto simp: configurator_call_def log_def split: sum.splits)
qed

lemma over_definitions: "definitions (fst (over E cfs def c)) = definitions c"
proof (induction cfs arbitrary: c)
  case Nil
  then show ?case by simp
next
  case (Cons cf cfs)
  obtain c1 r1 where one: "configurator_call E cf def c = (c1, r1)"
    by (cases "configurator_call E cf def c")
  then have "definitions c1 = definitions c"
    using configurator_call_definitions [of E cf def c] by simp
  then show ?case
    using one Cons.IH [of c1] by (cases r1) simp_all
qed

lemma setRaw_other:
  assumes "serviceId' \<noteq> serviceId"
  shows "definitions (fst (setRaw E serviceId' def cfs c)) serviceId = definitions c serviceId"
proof -
  obtain c1 r1 where cc: "compile_call E def serviceId' c = (c1, r1)"
    by (cases "compile_call E def serviceId' c")
  have d1: "definitions c1 = definitions c"
    using cc
    by (cases def)
       (auto simp: compile_call_def split: prod.splits sum.splits
          dest: call_method_definitionsD compile_definitionsD)
  show ?thesis
  proof (cases r1)
    case (Inl e)
    with cc d1 show ?thesis by (simp add: setRaw_def js_not_def)
  next
    case (Inr u)
    with cc d1 assms show ?thesis
      by (simp add: setRaw_def js_not_def Let_def over_definitions)
  qed
qed

lemma create_definitions: "definitions (fst (create def ctx argument c)) = definitions c"
  by (simp add: create_def new_Definition_def Let_def)

lemma set_service_other:
  assumes "serviceId' \<noteq> serviceId"
  shows "definitions (fst (set_service E serviceId' def cfs c)) serviceId = definitions c serviceId"
    and "definitions (fst (setShared E serviceId' def cfs c)) serviceId = definitions c serviceId"
  using setRaw_other [OF assms, of E] create_definitions [of def "AVal JUndefined" "AVal JUndefined" c]
  by (auto simp: set_service_def setShared_def update_def_def split: prod.splits)

lemma get_definitions: "definitions (fst (get E serviceId c)) = definitions c"
  using frame_fields(2) [OF invoke_frame(1)] call_method_definitions [of E _ "''resolve''" "[]" c]
  by (auto simp: get_def call_getDefinition_def split: sum.splits spec.splits option.splits)

lemma addLabel_loop_definitions: "definitions (fst (addLabel_loop E rawDef ls c)) = definitions c"
proof (induction ls arbitrary: c)
  case Nil
  then show ?case by simp
next
  case (Cons l ls)
  show ?case
  proof (cases rawDef)
    case (SDef d)
    then show ?thesis using Cons.IH [of "label d l JUndefined c"] by (simp add: label_effect)
  next
    case (SVal v)
    obtain c1 r1 where m: "call_method E v ''label'' [AVal (JStr l)] c = (c1, r1)"
      by (cases "call_method E v ''label'' [AVal (JStr l)] c")
    then have "definitions c1 = definitions c"
      using call_method_definitions [of E v "''label''" "[AVal (JStr l)]" c] by simp
    then show ?thesis
      using SVal m Cons.IH [of c1] by (cases r1) simp_all
  qed
qed

lemma addLabel_definitions: "definitions (fst (addLabel E serviceId ls c)) = definitions c"
  by (simp add: addLabel_def addLabel_loop_definitions split: sum.splits)

lemma visit_definitions: "definitions (fst (visit E callback ps c)) = definitions c"
proof (induction ps arbitrary: c)
  case Nil
  then show ?case by simp
next
  case (Cons p ps)
  show ?case
  proof (cases callback)
    case (JFun f)
    then show ?thesis
      using Cons.IH [of "log [Called f (AVal JUndefined) [AVal (fst p), AVal (snd p)]] c"]
      by (auto simp: log_def split: sum.splits)
  qed simp_all
qed

lemma overTags_definitions: "definitions (fst (overTags E G tagName x y c)) = definitions c"
  by (auto simp: overTags_def Let_def visit_definitions split: sum.splits prod.splits)

lemma call_get_definitions: "definitions (fst (call_get E serviceId c)) = definitions c"
  by (simp add: call_get_def get_definitions)

lemma call_hidden_definitions: "definitions (fst (call_hidden E m as c)) = definitions c"
proof -
  obtain c1 r1 where g: "call_get E m c = (c1, r1)"
    by (cases "call_get E m c")
  then have "definitions c1 = definitions c"
    using call_get_definitions [of E m c] by simp
  then show ?thesis
    using g by (cases r1) (auto simp: call_hidden_def call_value_def log_def split: jsval.splits)
qed

lemma call_addLabel_definitions: "definitions (fst (call_addLabel E serviceId ls c)) = definitions c"
proof (cases "hidden c ''addLabel''")
  case True
  obtain c1 r1 where h: "call_hidden E ''addLabel'' (AVal (JStr serviceId) # map (\<lambda>l. AVal (JStr l)) ls) c = (c1, r1)"
    by (cases "call_hidden E ''addLabel'' (AVal (JStr serviceId) # map (\<lambda>l. AVal (JStr l)) ls) c")
  then have "definitions c1 = definitions c"
    using call_hidden_definitions [of E "''addLabel''" "AVal (JStr serviceId) # map (\<lambda>l. AVal (JStr l)) ls" c]
    by simp
  with True h show ?thesis
    by (cases r1) (simp_all add: call_addLabel_def)
next
  case False
  then show ?thesis by (simp add: call_addLabel_def addLabel_definitions)
qed

lemma call_getResolver_definitions: "definitions (fst (call_getResolver E serviceId c)) = definitions c"
proof (cases "hidden c ''getResolver''")
  case True
  obtain c1 r1 where h: "call_hidden E ''getResolver'' [AVal (JStr serviceId)] c = (c1, r1)"
    by (cases "call_hidden E ''getResolver'' [AVal (JStr serviceId)] c")
  then have "definitions c1 = definitions c"
    using call_hidden_definitions [of E "''getResolver''" "[AVal (JStr serviceId)]" c] by simp
  with True h show ?thesis
    by (cases r1) (simp_all add: call_getResolver_def)
next
  case False
  then show ?thesis by (simp add: call_getResolver_def)
qed

text \<open>
  Claim C6, as amended. When the container holds no definition for an identifier and
  \<open>getDefinition\<close> is not hidden, the call of \<open>getDefinition\<close> on that identifier, and
  the calls of \<open>get\<close>, \<open>getResolver\<close> and \<open>addLabel\<close> when the method called is not hidden,
  raise the error that the service is not defined, and leave the container as it is. A
  new container holds no definition and hides no method, and an identifier stays
  without a definition under every operation other than a registration of that
  identifier, so this is the case of every identifier that was never registered.
\<close>

theorem unknown_service_raises:
  assumes "definitions c serviceId = None" and "\<not> hidden c ''getDefinition''"
  shows "call_getDefinition serviceId c = Inl (ServiceNotDefined serviceId) \<and>
         (\<not> hidden c ''get'' \<longrightarrow>
            call_get E serviceId c = (c, Inl (ServiceNotDefined serviceId))) \<and>
         (\<not> hidden c ''getResolver'' \<longrightarrow>
            call_getResolver E serviceId c = (c, Inl (ServiceNotDefined serviceId))) \<and>
         (\<not> hidden c ''addLabel'' \<longrightarrow>
            call_addLabel E serviceId ls c = (c, Inl (ServiceNotDefined serviceId))) \<and>
         definitions (empty_pimple deep n) serviceId = None \<and>
         \<not> hidden (empty_pimple deep n) m \<and>
         (s \<noteq> serviceId \<longrightarrow>
            definitions (fst (set_service E s x cfs c)) serviceId = None \<and>
            definitions (fst (setShared E s x cfs c)) serviceId = None \<and>
            definitions (fst (setRaw E s x cfs c)) serviceId = None) \<and>
         definitions (fst (call_get E s c)) serviceId = None \<and>
         definitions (fst (call_getResolver E s c)) serviceId = None \<and>
         definitions (fst (call_addLabel E s ls c)) serviceId = None \<and>
         definitions (fst (tag service ts c)) serviceId = None \<and>
         definitions (defineLabel l callback c) serviceId = None \<and>
         definitions (fst (overTags E G tagName y z c)) serviceId = None"
proof -
  have "s \<noteq> serviceId \<longrightarrow>
            definitions (fst (set_service E s x cfs c)) serviceId = None \<and>
            definitions (fst (setShared E s x cfs c)) serviceId = None \<and>
            definitions (fst (setRaw E s x cfs c)) serviceId = None"
    using assms(1) by (simp add: set_service_other setRaw_other)
  moreover have "definitions (fst (tag service ts c)) serviceId = None"
    using assms(1) by (simp add: tag_def tag_loop_definitions)
  moreover have "definitions (defineLabel l callback c) serviceId = None"
    using assms(1) by (simp add: defineLabel_def)
  moreover have "definitions (empty_pimple deep n) serviceId = None"
    and "\<not> hidden (empty_pimple deep n) m"
    by (simp_all add: empty_pimple_def hidden_def)
  moreover have "definitions (fst (call_get E s c)) serviceId = None"
    and "definitions (fst (call_getResolver E s c)) serviceId = None"
    and "definitions (fst (call_addLabel E s ls c)) serviceId = None"
    and "definitions (fst (overTags E G tagName y z c)) serviceId = None"
    using assms(1)
    by (simp_all add: call_get_definitions call_getResolver_definitions call_addLabel_definitions
          overTags_definitions)
  moreover have "call_getDefinition serviceId c = Inl (ServiceNotDefined serviceId)"
    using assms by (simp add: call_getDefinition_def getDefinition_def)
  moreover have "\<not> hidden c ''get'' \<longrightarrow>
      call_get E serviceId c = (c, Inl (ServiceNotDefined serviceId))"
    and "\<not> hidden c ''getResolver'' \<longrightarrow>
      call_getResolver E serviceId c = (c, Inl (ServiceNotDefined serviceId))"
    and "\<not> hidden c ''addLabel'' \<longrightarrow>
      call_addLabel E serviceId ls c = (c, Inl (ServiceNotDefined serviceId))"
    using assms
    by (simp_all add: call_get_def get_def call_getResolver_def getResolver_def call_addLabel_def
          addLabel_def call_getDefinition_def getDefinition_def)
  ultimately show ?thesis by blast
qed

text \<open>
  Claim C6 as stated fails once a service is registered under the name of one of these
  methods. No definition is held for \<open>ghost\<close>; after \<open>set(''get'', 1)\<close> the call of \<open>get\<close>
  on it exhausts the stack; after \<open>set(''addLabel'', 42)\<close> the call of \<open>addLabel\<close> on it
  is the call of the number 42; after \<open>set(''getDefinition'', 1)\<close> the calls of
  \<open>getDefinition\<close>, \<open>get\<close>, \<open>getResolver\<close> and \<open>addLabel\<close> on it all exhaust the stack.
\<close>

theorem hidden_method_raises_otherwise:
  "definitions (fst (set_service quiet ''get'' (SVal (JNum 1)) [] (empty_pimple True 0))) ''ghost'' = None \<and>
   snd (call_get quiet ''ghost''
     (fst (set_service quiet ''get'' (SVal (JNum 1)) [] (empty_pimple True 0)))) = Inl RangeError \<and>
   definitions (fst (set_service quiet ''addLabel'' (SVal (JNum 42)) [] (empty_pimple True 0))) ''ghost'' = None \<and>
   snd (call_addLabel quiet ''ghost'' [''l'']
     (fst (set_service quiet ''addLabel'' (SVal (JNum 42)) [] (empty_pimple True 0)))) = Inl TypeError \<and>
   definitions (fst (set_service quiet ''getDefinition'' (SVal (JNum 1)) [] (empty_pimple True 0))) ''ghost'' = None \<and>
   call_getDefinition ''ghost''
     (fst (set_service quiet ''getDefinition'' (SVal (JNum 1)) [] (empty_pimple True 0))) = Inl RangeError \<and>
   snd (call_get quiet ''ghost''
     (fst (set_service quiet ''getDefinition'' (SVal (JNum 1)) [] (empty_pimple True 0)))) = Inl RangeError \<and>
   snd (call_getResolver quiet ''ghost''
     (fst (set_service quiet ''getDefinition'' (SVal (JNum 1)) [] (empty_pimple True 0)))) = Inl RangeError \<and>
   snd (call_addLabel quiet ''ghost'' [''l'']
     (fst (set_service quiet ''getDefinition'' (SVal (JNum 1)) [] (empty_pimple True 0)))) = Inl RangeError"
  by (simp add: quiet_def run_defs call_addLabel_def call_getResolver_def getResolver_def
        call_hidden_def call_value_def)

theorem unknown_service_raises_witness:
  "call_getDefinition ''ghost'' (empty_pimple True 0) = Inl (ServiceNotDefined ''ghost'') \<and>
   call_get quiet ''ghost'' (empty_pimple True 0) = (empty_pimple True 0, Inl (ServiceNotDefined ''ghost'')) \<and>
   call_getResolver quiet ''ghost'' (empty_pimple True 0) =
     (empty_pimple True 0, Inl (ServiceNotDefined ''ghost'')) \<and>
   call_addLabel quiet ''ghost'' [''l''] (empty_pimple True 0) =
     (empty_pimple True 0, Inl (ServiceNotDefined ''ghost'')) \<and>
   definitions (fst (set_service quiet ''other'' (SVal (JNum 1)) [] (empty_pimple True 0))) ''ghost'' = None"
proof -
  have h: "definitions (empty_pimple True 0) ''ghost'' = None"
    and g: "\<not> hidden (empty_pimple True 0) ''getDefinition''"
    and k: "\<not> hidden (empty_pimple True 0) ''get''" "\<not> hidden (empty_pimple True 0) ''getResolver''"
      "\<not> hidden (empty_pimple True 0) ''addLabel''"
    by (simp_all add: empty_pimple_def hidden_def)
  show ?thesis
    using unknown_service_raises [OF h g, of quiet "[''l'']" True 0 _ "''other''" "SVal (JNum 1)" "[]"] k
    by simp
qed

end
